theory Spec2Isabelle
  imports Main "HOL-Library.AList"
begin

text \<open>
  The MP3 organizer of \<^verbatim>\<open>mp3_organizer.py\<close> (Python 2): it walks a source directory, reads one
  tag of every file with the extension \<^verbatim>\<open>.mp3\<close> and copies the file into the directory of
  the destination that is named after the tag value. The program is modelled with the
  library functions it calls (\<^verbatim>\<open>os\<close>, \<^verbatim>\<open>os.path\<close>, \<^verbatim>\<open>shutil\<close>, the tag reader) over an explicit
  world: the file system, the working directory and the two output streams. Exceptions
  are values; a function that can raise returns a sum.
\<close>

section \<open>Strings\<close>

text \<open>
  Python strings are modelled as HOL strings: a character is a code point below 256.
  The implicit conversions between Python 2 byte strings and unicode strings, and the
  encoding errors they can raise, are not modelled.
\<close>

text \<open>
  The characters \<^verbatim>\<open>unicode.split()\<close> treats as whitespace (below 256): tab, line feed,
  vertical tab, form feed, carriage return, the four separators 0x1C to 0x1F, space,
  next line (0x85) and no-break space (0xA0).
\<close>

definition isspace :: "char \<Rightarrow> bool" where
  "isspace c = (c \<in> set [CHR 0x09, CHR 0x0A, CHR 0x0B, CHR 0x0C, CHR 0x0D,
                         CHR 0x1C, CHR 0x1D, CHR 0x1E, CHR 0x1F, CHR '' '',
                         CHR 0x85, CHR 0xA0])"

text \<open>
  \<^verbatim>\<open>s.split()\<close> with no separator: skip whitespace, take the characters up to the next
  whitespace as one word, repeat until the string is used up.
\<close>

function str_split :: "string \<Rightarrow> string list" where
  "str_split s =
     (let s' = dropWhile isspace s in
      if s' = [] then []
      else takeWhile (\<lambda>c. \<not> isspace c) s' # str_split (dropWhile (\<lambda>c. \<not> isspace c) s'))"
  by pat_completeness auto
termination
proof (relation "measure length")
  show "wf (measure length)" by simp
next
  fix s s' :: string
  assume s': "s' = dropWhile isspace s" and ne: "s' \<noteq> []"
  from ne obtain a r where ar: "s' = a # r" by (cases s') auto
  with s' have "\<not> isspace a" by (metis hd_dropWhile list.sel(1) ne)
  then have "length (dropWhile (\<lambda>c. \<not> isspace c) s') \<le> length r"
    using ar by (simp add: length_dropWhile_le)
  also have "\<dots> < length s'" using ar by simp
  also have "\<dots> \<le> length s" using s' by (simp add: length_dropWhile_le)
  finally show "(dropWhile (\<lambda>c. \<not> isspace c) s', s) \<in> measure length" by simp
qed

text \<open>\<^verbatim>\<open>sep.join(xs)\<close>.\<close>

fun str_join :: "string \<Rightarrow> string list \<Rightarrow> string" where
  "str_join sep [] = []"
| "str_join sep [x] = x"
| "str_join sep (x # y # ys) = x @ sep @ str_join sep (y # ys)"

text \<open>\<^verbatim>\<open>s.split(c)\<close> with a one-character separator: the result is never empty.\<close>

fun split_on :: "char \<Rightarrow> string \<Rightarrow> string list" where
  "split_on c [] = [[]]"
| "split_on c (x # xs) =
     (if x = c then [] # split_on c xs
      else (case split_on c xs of [] \<Rightarrow> [[x]] | w # ws \<Rightarrow> (x # w) # ws))"

text \<open>\<^verbatim>\<open>s.lower()\<close> on a byte string in the C locale: only A to Z change.\<close>

definition lower_char :: "char \<Rightarrow> char" where
  "lower_char c =
     (case map_of (zip ''ABCDEFGHIJKLMNOPQRSTUVWXYZ'' ''abcdefghijklmnopqrstuvwxyz'') c of
        Some l \<Rightarrow> l
      | None \<Rightarrow> c)"

definition lower :: "string \<Rightarrow> string" where
  "lower s = map lower_char s"

text \<open>\<^verbatim>\<open>s.rfind(c)\<close>: the last index of the character, or -1.\<close>

definition rfind :: "string \<Rightarrow> char \<Rightarrow> int" where
  "rfind s c =
     (if c \<in> set s then int (length s) - 1 - int (length (takeWhile (\<lambda>x. x \<noteq> c) (rev s)))
      else - 1)"

text \<open>\<^verbatim>\<open>"%d" % n\<close> for a counter (the counters start at 0 and are only incremented).\<close>

fun show_nat :: "nat \<Rightarrow> string" where
  "show_nat n =
     (if n < 10 then [char_of (48 + n)]
      else show_nat (n div 10) @ [char_of (48 + n mod 10)])"

section \<open>Path names (posixpath)\<close>

definition os_path_join :: "string \<Rightarrow> string \<Rightarrow> string" where
  "os_path_join a b =
     (if b \<noteq> [] \<and> hd b = CHR ''/'' then b
      else if a = [] \<or> last a = CHR ''/'' then a @ b
      else a @ ''/'' @ b)"

definition os_path_basename :: "string \<Rightarrow> string" where
  "os_path_basename p = drop (nat (rfind p CHR ''/'' + 1)) p"

text \<open>
  \<^verbatim>\<open>os.path.splitext\<close>: the extension starts at the last dot of the last component,
  unless only dots stand before it there.
\<close>

definition os_path_splitext :: "string \<Rightarrow> string \<times> string" where
  "os_path_splitext p =
     (let sepIndex = rfind p CHR ''/'';
          dotIndex = rfind p CHR ''.''
      in if dotIndex > sepIndex \<and>
            list_ex (\<lambda>c. c \<noteq> CHR ''.'') (drop (nat (sepIndex + 1)) (take (nat dotIndex) p))
         then (take (nat dotIndex) p, drop (nat dotIndex) p)
         else (p, []))"

definition os_path_isabs :: "string \<Rightarrow> bool" where
  "os_path_isabs s = (s \<noteq> [] \<and> hd s = CHR ''/'')"

text \<open>One round of the loop of \<^verbatim>\<open>os.path.normpath\<close> over the components.\<close>

definition normpath_step :: "nat \<Rightarrow> string list \<Rightarrow> string \<Rightarrow> string list" where
  "normpath_step initial_slashes new_comps c =
     (if c = [] \<or> c = ''.'' then new_comps
      else if c \<noteq> ''..'' \<or> (initial_slashes = 0 \<and> new_comps = []) \<or>
              (new_comps \<noteq> [] \<and> last new_comps = ''..'')
           then new_comps @ [c]
      else if new_comps \<noteq> [] then butlast new_comps
      else new_comps)"

definition os_path_normpath :: "string \<Rightarrow> string" where
  "os_path_normpath path =
     (if path = [] then ''.''
      else
        let initial_slashes =
              (if os_path_isabs path
               then (if take 2 path = ''//'' \<and> take 3 path \<noteq> ''///'' then 2 else 1)
               else (0::nat));
            comps = foldl (normpath_step initial_slashes) [] (split_on CHR ''/'' path);
            p = replicate initial_slashes CHR ''/'' @ str_join ''/'' comps
        in if p = [] then ''.'' else p)"

section \<open>The file system\<close>

text \<open>
  What the metadata reader sees in a file: either bytes it cannot parse as MPEG audio, or
  an audio file with its tag dictionary (a key has a list of values) and its audio data.
\<close>

datatype content = Garbage string | Audio "(string \<times> string list) list" string

text \<open>
  A file system is a list of absolute paths (lists of component names, the root is the
  empty list) with their entries, in the order of their creation; a path is looked up
  from the front. \<^verbatim>\<open>os.listdir\<close> returns the names of a directory in that order. There
  are no symbolic links, special files or permissions.
\<close>

type_synonym path = "string list"

datatype entry = File content | Dir

record world =
  fs :: "(path \<times> entry) list"
  cwd :: path
  out :: "string list"
  err :: "string list"

definition lookup :: "world \<Rightarrow> path \<Rightarrow> entry option" where
  "lookup w p = map_of (fs w) p"

definition children :: "world \<Rightarrow> path \<Rightarrow> string list" where
  "children w d = map last (filter (\<lambda>q. q \<noteq> [] \<and> butlast q = d) (map fst (fs w)))"

text \<open>The exceptions of the program, with what \<^verbatim>\<open>str(e)\<close> needs.\<close>

datatype error =
    IndexError
  | HeaderNotFoundError
  | OSError nat string string
  | IOError nat string string
  | ShutilError string string

definition ENOENT :: "string \<Rightarrow> error" where
  "ENOENT f = OSError 2 ''No such file or directory'' f"

definition EEXIST :: "string \<Rightarrow> error" where
  "EEXIST f = OSError 17 ''File exists'' f"

fun str_of_error :: "error \<Rightarrow> string" where
  "str_of_error IndexError = ''list index out of range''"
| "str_of_error HeaderNotFoundError = ''can't sync to an MPEG frame''"
| "str_of_error (OSError n msg f) =
     ''[Errno '' @ show_nat n @ ''] '' @ msg @ '': '' @ [CHR 0x27] @ f @ [CHR 0x27]"
| "str_of_error (IOError n msg f) =
     ''[Errno '' @ show_nat n @ ''] '' @ msg @ '': '' @ [CHR 0x27] @ f @ [CHR 0x27]"
| "str_of_error (ShutilError a b) =
     [CHR 0x60] @ a @ [CHR 0x60] @ '' and '' @ [CHR 0x60] @ b @ [CHR 0x60] @ '' are the same file''"

definition is_Dir :: "entry option \<Rightarrow> bool" where
  "is_Dir e = (e = Some Dir)"

definition is_File :: "entry option \<Rightarrow> bool" where
  "is_File e = (case e of Some (File _) \<Rightarrow> True | _ \<Rightarrow> False)"

text \<open>
  Path resolution as the kernel does it, one component at a time: every component is
  looked up in a directory that exists; \<^verbatim>\<open>.\<close> stays, \<^verbatim>\<open>..\<close> goes to the parent (the root
  is its own parent). The last component need not exist.
\<close>

definition components :: "string \<Rightarrow> string list" where
  "components s = filter (\<lambda>c. c \<noteq> []) (split_on CHR ''/'' s)"

fun resolve_from :: "(path \<Rightarrow> entry option) \<Rightarrow> path \<Rightarrow> string list \<Rightarrow> path option" where
  "resolve_from f cur [] = Some cur"
| "resolve_from f cur (c # cs) =
     (if \<not> is_Dir (f cur) then None
      else if c = ''.'' then resolve_from f cur cs
      else if c = ''..'' then resolve_from f (butlast cur) cs
      else resolve_from f (cur @ [c]) cs)"

definition resolve :: "world \<Rightarrow> string \<Rightarrow> path option" where
  "resolve w s =
     (if s = [] then None
      else resolve_from (lookup w) (if os_path_isabs s then [] else cwd w) (components s))"

text \<open>
  \<^verbatim>\<open>os.stat\<close>: the entry a path names, if any. A path that ends in a slash names a
  directory or nothing.
\<close>

definition stat :: "world \<Rightarrow> string \<Rightarrow> entry option" where
  "stat w s =
     (case resolve w s of
        None \<Rightarrow> None
      | Some p \<Rightarrow>
          (case lookup w p of
             None \<Rightarrow> None
           | Some e \<Rightarrow> if last s = CHR ''/'' \<and> e \<noteq> Dir then None else Some e))"

definition os_path_exists :: "world \<Rightarrow> string \<Rightarrow> bool" where
  "os_path_exists w s = (stat w s \<noteq> None)"

definition os_path_isfile :: "world \<Rightarrow> string \<Rightarrow> bool" where
  "os_path_isfile w s = is_File (stat w s)"

definition os_path_isdir :: "world \<Rightarrow> string \<Rightarrow> bool" where
  "os_path_isdir w s = is_Dir (stat w s)"

definition os_listdir :: "world \<Rightarrow> string \<Rightarrow> error + string list" where
  "os_listdir w s =
     (case resolve w s of
        None \<Rightarrow> Inl (ENOENT s)
      | Some p \<Rightarrow>
          (case lookup w p of
             Some Dir \<Rightarrow> Inr (children w p)
           | Some (File _) \<Rightarrow> Inl (OSError 20 ''Not a directory'' s)
           | None \<Rightarrow> Inl (ENOENT s)))"

definition os_getcwd :: "world \<Rightarrow> string" where
  "os_getcwd w = ''/'' @ str_join ''/'' (cwd w)"

definition os_path_abspath :: "world \<Rightarrow> string \<Rightarrow> string" where
  "os_path_abspath w path =
     os_path_normpath (if os_path_isabs path then path else os_path_join (os_getcwd w) path)"

text \<open>
  \<^verbatim>\<open>os.mkdir\<close>: one level only. The parent must be an existing directory and the path
  must not exist; the new directory goes to the end of the list.
\<close>

definition os_mkdir :: "world \<Rightarrow> string \<Rightarrow> error + world" where
  "os_mkdir w s =
     (case resolve w s of
        None \<Rightarrow> Inl (ENOENT s)
      | Some p \<Rightarrow>
          if lookup w p \<noteq> None \<or> p = [] then Inl (EEXIST s)
          else if is_Dir (lookup w (butlast p))
          then Inr (w\<lparr>fs := AList.update p Dir (fs w)\<rparr>)
          else Inl (ENOENT s))"

text \<open>
  \<^verbatim>\<open>open(s, 'rb').read()\<close> and \<^verbatim>\<open>open(s, 'wb').write(c)\<close>. Writing replaces the content of
  an existing file where it stands in the list, and puts a new file at the end.
\<close>

definition read_file :: "world \<Rightarrow> string \<Rightarrow> error + content" where
  "read_file w s =
     (case stat w s of
        Some (File c) \<Rightarrow> Inr c
      | Some Dir \<Rightarrow> Inl (IOError 21 ''Is a directory'' s)
      | None \<Rightarrow> Inl (IOError 2 ''No such file or directory'' s))"

definition write_file :: "world \<Rightarrow> string \<Rightarrow> content \<Rightarrow> error + world" where
  "write_file w s c =
     (case resolve w s of
        None \<Rightarrow> Inl (IOError 2 ''No such file or directory'' s)
      | Some p \<Rightarrow>
          if last s = CHR ''/'' \<or> p = [] \<or> is_Dir (lookup w p)
          then Inl (IOError 21 ''Is a directory'' s)
          else if is_File (lookup w p) \<or> is_Dir (lookup w (butlast p))
          then Inr (w\<lparr>fs := AList.update p (File c) (fs w)\<rparr>)
          else Inl (IOError 2 ''No such file or directory'' s))"

text \<open>\<^verbatim>\<open>os.path.samefile\<close>, with \<^verbatim>\<open>shutil._samefile\<close>'s answer False when either is missing.\<close>

definition samefile :: "world \<Rightarrow> string \<Rightarrow> string \<Rightarrow> bool" where
  "samefile w a b = (stat w a \<noteq> None \<and> stat w b \<noteq> None \<and> resolve w a = resolve w b)"

text \<open>
  \<^verbatim>\<open>shutil.copy(src, dst)\<close>: into the directory \<^verbatim>\<open>dst\<close> under the source's base name, or
  onto the file \<^verbatim>\<open>dst\<close>; an existing file is overwritten.
\<close>

definition shutil_copy :: "world \<Rightarrow> string \<Rightarrow> string \<Rightarrow> error + world" where
  "shutil_copy w src dst =
     (let dst' = (if os_path_isdir w dst then os_path_join dst (os_path_basename src) else dst)
      in if samefile w src dst' then Inl (ShutilError src dst')
         else (case read_file w src of
                 Inl e \<Rightarrow> Inl e
               | Inr c \<Rightarrow> write_file w dst' c))"

text \<open>
  \<^verbatim>\<open>mutagen.mp3.MP3(f, ID3=EasyID3)\<close>: the tag dictionary of an audio file; an error on
  a file that is no MPEG audio.
\<close>

definition MP3 :: "world \<Rightarrow> string \<Rightarrow> error + (string \<times> string list) list" where
  "MP3 w f =
     (case read_file w f of
        Inl e \<Rightarrow> Inl e
      | Inr (Garbage _) \<Rightarrow> Inl HeaderNotFoundError
      | Inr (Audio tags _) \<Rightarrow> Inr tags)"

text \<open>\<^verbatim>\<open>d.get(key, default)\<close> and \<^verbatim>\<open>xs[0]\<close>.\<close>

definition dict_get :: "('k \<times> 'v) list \<Rightarrow> 'k \<Rightarrow> 'v \<Rightarrow> 'v" where
  "dict_get d k dflt = (case map_of d k of None \<Rightarrow> dflt | Some v \<Rightarrow> v)"

definition index0 :: "'a list \<Rightarrow> error + 'a" where
  "index0 xs = (case xs of [] \<Rightarrow> Inl IndexError | x # _ \<Rightarrow> Inr x)"

section \<open>The organizer\<close>

record MP3Organizer =
  source_dir :: string
  dest_dir :: string
  tag :: string
  copied_files :: nat
  copy_fails :: nat

text \<open>\<^verbatim>\<open>MP3Organizer.__init__\<close>: an exception of \<^verbatim>\<open>os.mkdir\<close> leaves no object.\<close>

definition init :: "world \<Rightarrow> string \<Rightarrow> string \<Rightarrow> string \<Rightarrow> error + MP3Organizer \<times> world" where
  "init w src dst t =
     (let self = \<lparr>source_dir = src, dest_dir = dst, tag = t, copied_files = 0, copy_fails = 0\<rparr>
      in if \<not> os_path_exists w dst
         then (case os_mkdir w dst of Inl e \<Rightarrow> Inl e | Inr w' \<Rightarrow> Inr (self, w'))
         else Inr (self, w))"

text \<open>Lines 43 and 44 of \<^verbatim>\<open>_add_file\<close>: the tag value and the directory name made of it.\<close>

definition raw_tag_value :: "(string \<times> string list) list \<Rightarrow> string \<Rightarrow> error + string" where
  "raw_tag_value short_tags t = index0 (dict_get short_tags t [''unknown''])"

definition tag_value :: "string \<Rightarrow> string" where
  "tag_value raw = str_join ''_'' (str_split raw)"

text \<open>The two messages about one file: \<^verbatim>\<open>"Copied %s to %s \n"\<close> and \<^verbatim>\<open>"Cannot copy file %s (reason: %s)\n"\<close>.\<close>

definition copied_line :: "string \<Rightarrow> string \<Rightarrow> string" where
  "copied_line f d = ''Copied '' @ f @ '' to '' @ d @ '' '' @ [CHR 0x0A]"

definition cannot_copy_line :: "string \<Rightarrow> error \<Rightarrow> string" where
  "cannot_copy_line f e =
     ''Cannot copy file '' @ f @ '' (reason: '' @ str_of_error e @ '')'' @ [CHR 0x0A]"

text \<open>
  \<^verbatim>\<open>_add_file\<close>. An exception leaves the object as it was and the file system as the
  steps before it made it: \<open>Inl\<close> carries the exception and the world at that point.
\<close>

definition add_file ::
  "MP3Organizer \<Rightarrow> world \<Rightarrow> string \<Rightarrow> error \<times> world + MP3Organizer \<times> world" where
  "add_file self w mp3_file =
     (case MP3 w mp3_file of
        Inl e \<Rightarrow> Inl (e, w)
      | Inr short_tags \<Rightarrow>
          (case raw_tag_value short_tags (tag self) of
             Inl e \<Rightarrow> Inl (e, w)
           | Inr raw \<Rightarrow>
               (let mp3_file_dest_dir = os_path_join (dest_dir self) (tag_value raw) in
                (case (if \<not> os_path_exists w mp3_file_dest_dir
                       then os_mkdir w mp3_file_dest_dir else Inr w) of
                   Inl e \<Rightarrow> Inl (e, w)
                 | Inr w1 \<Rightarrow>
                     (case shutil_copy w1 mp3_file mp3_file_dest_dir of
                        Inl e \<Rightarrow> Inl (e, w1)
                      | Inr w2 \<Rightarrow>
                          Inr (self\<lparr>copied_files := copied_files self + 1\<rparr>,
                               w2\<lparr>out := out w2 @
                                  [copied_line mp3_file mp3_file_dest_dir]\<rparr>))))))"

text \<open>
  Lines 45 to 50 of \<^verbatim>\<open>_add_file\<close> alone, for a directory \<^verbatim>\<open>mp3_file_dest_dir\<close> that line 44
  has computed: the directory is made when nothing has its name, the file is copied into it,
  counted and reported.
\<close>

definition copy_into ::
  "MP3Organizer \<Rightarrow> world \<Rightarrow> string \<Rightarrow> string \<Rightarrow> error \<times> world + MP3Organizer \<times> world" where
  "copy_into self w mp3_file mp3_file_dest_dir =
     (case (if \<not> os_path_exists w mp3_file_dest_dir
            then os_mkdir w mp3_file_dest_dir else Inr w) of
        Inl e \<Rightarrow> Inl (e, w)
      | Inr w1 \<Rightarrow>
          (case shutil_copy w1 mp3_file mp3_file_dest_dir of
             Inl e \<Rightarrow> Inl (e, w1)
           | Inr w2 \<Rightarrow>
               Inr (self\<lparr>copied_files := copied_files self + 1\<rparr>,
                    w2\<lparr>out := out w2 @ [copied_line mp3_file mp3_file_dest_dir]\<rparr>)))"

definition increment_failures :: "MP3Organizer \<Rightarrow> MP3Organizer" where
  "increment_failures self = self\<lparr>copy_fails := copy_fails self + 1\<rparr>"

text \<open>The test of lines 67 to 69 on one entry, and the entry's path.\<close>

definition entry_path :: "world \<Rightarrow> string \<Rightarrow> string \<Rightarrow> string" where
  "entry_path w dir_name entry = os_path_abspath w (os_path_join dir_name entry)"

definition is_mp3 :: "world \<Rightarrow> string \<Rightarrow> bool" where
  "is_mp3 w p =
     (os_path_isfile w p \<and>
      (let entry_ext = snd (os_path_splitext p)
       in length entry_ext > 0 \<and> lower entry_ext = ''.mp3''))"

text \<open>\<^verbatim>\<open>_walk_callback\<close>: the loop over the entries of one directory.\<close>

fun walk_callback ::
  "MP3Organizer \<times> world \<Rightarrow> string \<Rightarrow> string list \<Rightarrow> MP3Organizer \<times> world" where
  "walk_callback (self, w) dir_name [] = (self, w)"
| "walk_callback (self, w) dir_name (entry # entries) =
     (let p = entry_path w dir_name entry in
      if is_mp3 w p then
        (case add_file self w p of
           Inr (self', w') \<Rightarrow> walk_callback (self', w') dir_name entries
         | Inl (e, w') \<Rightarrow>
             walk_callback
               (increment_failures self, w'\<lparr>err := err w' @ [cannot_copy_line p e]\<rparr>)
               dir_name entries)
      else walk_callback (self, w) dir_name entries)"

text \<open>
  \<^verbatim>\<open>os.path.walk(top, func, arg)\<close> of Python 2 with \<^verbatim>\<open>_walk_callback\<close> as \<^verbatim>\<open>func\<close>: list the
  directory (return when that fails), call the callback with the names, then walk into
  every name that is a directory by then. The first argument bounds the depth of the
  recursion; the result is \<open>None\<close> when the bound is reached. The bound belongs to the
  model: the recursion limit of the interpreter is not modelled.
\<close>

fun os_path_walk ::
    "nat \<Rightarrow> string \<Rightarrow> MP3Organizer \<times> world \<Rightarrow> (MP3Organizer \<times> world) option"
  and walk_names ::
    "nat \<Rightarrow> string \<Rightarrow> string list \<Rightarrow> MP3Organizer \<times> world \<Rightarrow> (MP3Organizer \<times> world) option"
where
  "os_path_walk 0 topdir s = None"
| "os_path_walk (Suc n) topdir s =
     (case os_listdir (snd s) topdir of
        Inl e \<Rightarrow> Some s
      | Inr names \<Rightarrow> walk_names n topdir names (walk_callback s topdir names))"
| "walk_names n topdir [] s = Some s"
| "walk_names n topdir (name # names) s =
     (let name' = os_path_join topdir name in
      if os_path_isdir (snd s) name'
      then (case os_path_walk n name' s of
              None \<Rightarrow> None
            | Some s' \<Rightarrow> walk_names n topdir names s')
      else walk_names n topdir names s)"

text \<open>\<^verbatim>\<open>run\<close>: the walk, then the summary on standard output.\<close>

definition summary :: "MP3Organizer \<Rightarrow> string list" where
  "summary self =
     [''Copied '' @ show_nat (copied_files self) @ '' files'' @ [CHR 0x0A]] @
     (if copy_fails self > 0
      then [''Failed to copy '' @ show_nat (copy_fails self) @ '' files !'' @ [CHR 0x0A]]
      else [])"

definition run :: "nat \<Rightarrow> MP3Organizer \<times> world \<Rightarrow> (MP3Organizer \<times> world) option" where
  "run n s =
     (case os_path_walk n (source_dir (fst s)) s of
        None \<Rightarrow> None
      | Some (self, w) \<Rightarrow> Some (self, w\<lparr>out := out w @ summary self\<rparr>))"

text \<open>
  \<^verbatim>\<open>main\<close>, from the parsed options on: an option that was not given is \<open>None\<close>. The
  result is the exit status and the world; an exception that leaves \<^verbatim>\<open>main\<close> ends the
  process with status 1 and its message on standard error.
\<close>

record options =
  opt_source_dir :: "string option"
  opt_dest_dir :: "string option"
  opt_tag :: "string option"

definition falsy :: "string option \<Rightarrow> bool" where
  "falsy v = (v = None \<or> v = Some [])"

definition valid_tags :: "string set" where
  "valid_tags = set [''artist'', ''album'', ''year'', ''genre'']"

definition see_help :: string where
  "see_help = ''See the help (--help option).'' @ [CHR 0x0A]"

text \<open>The last line of the traceback of an exception nothing catches; the lines before it are left out.\<close>

fun error_name :: "error \<Rightarrow> string" where
  "error_name IndexError = ''IndexError''"
| "error_name HeaderNotFoundError = ''mutagen.mp3.HeaderNotFoundError''"
| "error_name (OSError n msg f) = ''OSError''"
| "error_name (IOError n msg f) = ''IOError''"
| "error_name (ShutilError a b) = ''shutil.Error''"

definition uncaught_line :: "error \<Rightarrow> string" where
  "uncaught_line e = error_name e @ '': '' @ str_of_error e @ [CHR 0x0A]"

definition main :: "nat \<Rightarrow> options \<Rightarrow> world \<Rightarrow> (nat \<times> world) option" where
  "main n opts w =
     (if falsy (opt_source_dir opts) then
        Some (1, w\<lparr>err := err w @ [''Source directory not specified.'' @ [CHR 0x0A], see_help]\<rparr>)
      else if falsy (opt_dest_dir opts) then
        Some (1, w\<lparr>err := err w @
                  [''Destination directory not specified.'' @ [CHR 0x0A], see_help]\<rparr>)
      else if falsy (opt_tag opts) then
        Some (1, w\<lparr>err := err w @ [''Tag not specified.'' @ [CHR 0x0A], see_help]\<rparr>)
      else if the (opt_tag opts) \<notin> valid_tags then
        Some (1, w\<lparr>err := err w @ [''An invalid tag was specified.'' @ [CHR 0x0A], see_help]\<rparr>)
      else
        (case init w (the (opt_source_dir opts)) (the (opt_dest_dir opts)) (the (opt_tag opts)) of
           Inl e \<Rightarrow> Some (1, w\<lparr>err := err w @ [uncaught_line e]\<rparr>)
         | Inr mp3_organizer \<Rightarrow>
             (case run n mp3_organizer of
                None \<Rightarrow> None
              | Some (self, w') \<Rightarrow> Some (0, w'))))"

section \<open>What the specification says of the bucket name\<close>

text \<open>
  Following the words of the specification: every run of whitespace is replaced by a
  single underscore. The flag tells whether the character before was whitespace.
\<close>

fun collapse :: "bool \<Rightarrow> string \<Rightarrow> string" where
  "collapse prev [] = []"
| "collapse prev (c # cs) =
     (if isspace c then (if prev then collapse True cs else CHR ''_'' # collapse True cs)
      else c # collapse False cs)"

definition lstrip :: "string \<Rightarrow> string" where
  "lstrip v = dropWhile isspace v"

definition rstrip :: "string \<Rightarrow> string" where
  "rstrip v = rev (dropWhile isspace (rev v))"

definition strip :: "string \<Rightarrow> string" where
  "strip v = rstrip (lstrip v)"

text \<open>
  The raw value with each internal run of whitespace replaced by a single underscore: the
  whitespace before the first and after the last other character stays as it is.
\<close>

definition replace_internal_runs :: "string \<Rightarrow> string" where
  "replace_internal_runs v =
     takeWhile isspace v @ collapse False (strip v) @
     rev (takeWhile isspace (rev (lstrip v)))"

section \<open>How the world changes\<close>

text \<open>
  What every step of the program keeps: the working directory, every directory, every
  regular file (its content may change), the order of the paths and what was written to
  the two streams. Nothing is ever removed.
\<close>

definition grows :: "world \<Rightarrow> world \<Rightarrow> bool" where
  "grows w w' =
     (cwd w' = cwd w \<and>
      (\<forall>p. is_Dir (lookup w p) \<longrightarrow> is_Dir (lookup w' p)) \<and>
      (\<forall>p. is_File (lookup w p) \<longrightarrow> is_File (lookup w' p)) \<and>
      (\<exists>ks. map fst (fs w') = map fst (fs w) @ ks) \<and>
      (\<exists>xs. out w' = out w @ xs) \<and>
      (\<exists>xs. err w' = err w @ xs))"

section \<open>The files a walk scans\<close>

text \<open>
  The number of entries that pass the test of lines 67 to 69 when the callback comes to
  them: regular files whose extension is \<^verbatim>\<open>.mp3\<close> in any case of the letters. It follows the
  loop of the callback and the recursion of the walk, each entry tested in the world the
  entries before it have left.
\<close>

fun scanned_entries :: "MP3Organizer \<times> world \<Rightarrow> string \<Rightarrow> string list \<Rightarrow> nat" where
  "scanned_entries s dir_name [] = 0"
| "scanned_entries s dir_name (entry # entries) =
     (if is_mp3 (snd s) (entry_path (snd s) dir_name entry) then 1 else 0) +
     scanned_entries (walk_callback s dir_name [entry]) dir_name entries"

fun scanned :: "nat \<Rightarrow> string \<Rightarrow> MP3Organizer \<times> world \<Rightarrow> nat"
  and scanned_names :: "nat \<Rightarrow> string \<Rightarrow> string list \<Rightarrow> MP3Organizer \<times> world \<Rightarrow> nat"
where
  "scanned 0 topdir s = 0"
| "scanned (Suc n) topdir s =
     (case os_listdir (snd s) topdir of
        Inl e \<Rightarrow> 0
      | Inr names \<Rightarrow>
          scanned_entries s topdir names +
          scanned_names n topdir names (walk_callback s topdir names))"
| "scanned_names n topdir [] s = 0"
| "scanned_names n topdir (name # names) s =
     (let name' = os_path_join topdir name in
      if os_path_isdir (snd s) name'
      then scanned n name' s +
           (case os_path_walk n name' s of
              None \<Rightarrow> 0
            | Some s' \<Rightarrow> scanned_names n topdir names s')
      else scanned_names n topdir names s)"

text \<open>The number a string of decimal digits stands for.\<close>

definition decimal_value :: "string \<Rightarrow> nat" where
  "decimal_value s = foldl (\<lambda>a c. 10 * a + (of_char c - 48)) 0 s"

section \<open>Well-formed worlds\<close>

text \<open>
  A name \<^verbatim>\<open>os.listdir\<close> can return: not empty, without a slash, neither \<^verbatim>\<open>.\<close> nor \<^verbatim>\<open>..\<close>.
\<close>

definition valid_name :: "string \<Rightarrow> bool" where
  "valid_name n = (n \<noteq> [] \<and> CHR ''/'' \<notin> set n \<and> n \<noteq> ''.'' \<and> n \<noteq> ''..'')"

text \<open>
  A world is well formed when the root and the working directory are directories, and
  every other path stands in a directory under a valid name.
\<close>

definition wf_world :: "world \<Rightarrow> bool" where
  "wf_world w =
     (is_Dir (lookup w []) \<and> is_Dir (lookup w (cwd w)) \<and>
      (\<forall>p\<in>set (map fst (fs w)).
         p \<noteq> [] \<longrightarrow> is_Dir (lookup w (butlast p)) \<and> valid_name (last p)))"

section \<open>Nested directories and reports\<close>

text \<open>
  A chain of names leads from a directory down through nested subdirectories: each name is
  listed in the directory reached so far and names a directory there. The chain can have
  any length.
\<close>

fun subdir_chain :: "world \<Rightarrow> string \<Rightarrow> string list \<Rightarrow> bool" where
  "subdir_chain w d [] = True"
| "subdir_chain w d (n # ns) =
     ((case os_listdir w d of Inl e \<Rightarrow> False | Inr names \<Rightarrow> n \<in> set names) \<and>
      os_path_isdir w (os_path_join d n) \<and>
      subdir_chain w (os_path_join d n) ns)"

text \<open>
  A file was handled between two worlds when one of the two messages about it was
  written in between: the one of a copy, or the one of a failure.
\<close>

definition reported :: "string \<Rightarrow> world \<Rightarrow> world \<Rightarrow> bool" where
  "reported f w w' =
     ((\<exists>d. copied_line f d \<in> set (drop (length (out w)) (out w'))) \<or>
      (\<exists>e. cannot_copy_line f e \<in> set (drop (length (err w)) (err w'))))"

section \<open>A bound for the depth of the walk\<close>

text \<open>
  The walk only goes into directories, and the program only makes the directories
  \<open>dest_dir/bucket\<close> for the tag values of the files there are. So no directory the walk can
  meet lies deeper than the deepest directory of the start or the longest such path. The
  length of a path the kernel resolves is at most the length of the working directory plus
  the number of components of the path name.
\<close>

definition target_depth :: "string \<Rightarrow> string \<Rightarrow> path \<Rightarrow> content \<Rightarrow> nat" where
  "target_depth dst t cw c =
     (case c of
        Garbage _ \<Rightarrow> 0
      | Audio tags _ \<Rightarrow>
          (case raw_tag_value tags t of
             Inl _ \<Rightarrow> 0
           | Inr raw \<Rightarrow> length cw + length (components (os_path_join dst (tag_value raw)))))"

definition entry_depth :: "string \<Rightarrow> string \<Rightarrow> path \<Rightarrow> path \<times> entry \<Rightarrow> nat" where
  "entry_depth dst t cw pe =
     (case snd pe of Dir \<Rightarrow> length (fst pe) | File c \<Rightarrow> target_depth dst t cw c)"

definition depth_bound :: "MP3Organizer \<Rightarrow> world \<Rightarrow> nat" where
  "depth_bound self w =
     foldr max (map (entry_depth (dest_dir self) (tag self) (cwd w)) (fs w)) 0"

text \<open>The invariant of the walk: a well-formed world within the bound.\<close>

definition bounded :: "nat \<Rightarrow> string \<Rightarrow> string \<Rightarrow> world \<Rightarrow> bool" where
  "bounded L dst t w =
     (wf_world w \<and>
      (\<forall>p. is_Dir (lookup w p) \<longrightarrow> length p \<le> L) \<and>
      (\<forall>p c. lookup w p = Some (File c) \<longrightarrow> target_depth dst t (cwd w) c \<le> L))"

text \<open>A path the kernel has resolved is a directory, or a valid new name in a directory.\<close>

definition fresh_or_dir :: "(path \<Rightarrow> entry option) \<Rightarrow> path \<Rightarrow> bool" where
  "fresh_or_dir f p =
     (is_Dir (f p) \<or> (p \<noteq> [] \<and> valid_name (last p) \<and> is_Dir (f (butlast p))))"

definition same_config :: "MP3Organizer \<times> world \<Rightarrow> MP3Organizer \<times> world \<Rightarrow> bool" where
  "same_config s s' = (dest_dir (fst s') = dest_dir (fst s) \<and> tag (fst s') = tag (fst s))"

section \<open>An example\<close>

text \<open>
  A music directory below the working directory \<^verbatim>\<open>/home\<close>: two tagged files, one without
  the artist tag, one that is no audio, a text file, and files two levels down.
\<close>

definition ex_world :: world where
  "ex_world =
     \<lparr>fs = [([], Dir),
            ([''home''], Dir),
            ([''home'', ''music''], Dir),
            ([''home'', ''music'', ''a.mp3''],
               File (Audio [(''artist'', [''Guns N Roses'']), (''album'', [''Lies''])] ''aaa'')),
            ([''home'', ''music'', ''b.mp3''], File (Audio [(''album'', [''Demo''])] ''bbb'')),
            ([''home'', ''music'', ''c.MP3''], File (Garbage ''ccc'')),
            ([''home'', ''music'', ''notes.txt''], File (Garbage ''text'')),
            ([''home'', ''music'', ''sub''], Dir),
            ([''home'', ''music'', ''sub'', ''d.mp3''],
               File (Audio [(''artist'', ['' Queen ''])] ''ddd'')),
            ([''home'', ''music'', ''sub'', ''deep''], Dir),
            ([''home'', ''music'', ''sub'', ''deep'', ''e.Mp3''],
               File (Audio [(''artist'', [''  ''])] ''eee''))],
      cwd = [''home''], out = [], err = []\<rparr>"

definition ex_options :: options where
  "ex_options =
     \<lparr>opt_source_dir = Some ''music'', opt_dest_dir = Some ''out'', opt_tag = Some ''artist''\<rparr>"

definition ex_organizer :: MP3Organizer where
  "ex_organizer =
     \<lparr>source_dir = ''music'', dest_dir = ''out'', tag = ''artist'',
      copied_files = 0, copy_fails = 0\<rparr>"

text \<open>The example after \<^verbatim>\<open>__init__\<close> has made the destination directory.\<close>

definition ex_world_init :: world where
  "ex_world_init = ex_world\<lparr>fs := fs ex_world @ [([''home'', ''out''], Dir)]\<rparr>"

text \<open>The example after the run: four files copied, one failure.\<close>

definition ex_organizer_done :: MP3Organizer where
  "ex_organizer_done = ex_organizer\<lparr>copied_files := 4, copy_fails := 1\<rparr>"

definition ex_world_done :: world where
  "ex_world_done =
     \<lparr>fs = fs ex_world_init @
            [([''home'', ''out'', ''Guns_N_Roses''], Dir),
             ([''home'', ''out'', ''Guns_N_Roses'', ''a.mp3''],
                File (Audio [(''artist'', [''Guns N Roses'']), (''album'', [''Lies''])] ''aaa'')),
             ([''home'', ''out'', ''unknown''], Dir),
             ([''home'', ''out'', ''unknown'', ''b.mp3''],
                File (Audio [(''album'', [''Demo''])] ''bbb'')),
             ([''home'', ''out'', ''Queen''], Dir),
             ([''home'', ''out'', ''Queen'', ''d.mp3''],
                File (Audio [(''artist'', ['' Queen ''])] ''ddd'')),
             ([''home'', ''out'', ''e.Mp3''], File (Audio [(''artist'', [''  ''])] ''eee''))],
      cwd = [''home''],
      out = [copied_line ''/home/music/a.mp3'' ''out/Guns_N_Roses'',
             copied_line ''/home/music/b.mp3'' ''out/unknown'',
             copied_line ''/home/music/sub/d.mp3'' ''out/Queen'',
             copied_line ''/home/music/sub/deep/e.Mp3'' ''out/'',
             ''Copied 4 files'' @ [CHR 0x0A],
             ''Failed to copy 1 files !'' @ [CHR 0x0A]],
      err = [cannot_copy_line ''/home/music/c.MP3'' HeaderNotFoundError]\<rparr>"

text \<open>
  Two files whose artists are \<^verbatim>\<open>AC/DC\<close> and \<^verbatim>\<open>AC\<close>: the directory for the first can only be
  made below the directory for the second.
\<close>

definition ex_acdc_world :: world where
  "ex_acdc_world =
     \<lparr>fs = [([], Dir),
            ([''home''], Dir),
            ([''home'', ''music''], Dir),
            ([''home'', ''music'', ''a.mp3''], File (Audio [(''artist'', [''AC/DC''])] ''aaa'')),
            ([''home'', ''music'', ''b.mp3''], File (Audio [(''artist'', [''AC''])] ''bbb''))],
      cwd = [''home''], out = [], err = []\<rparr>"

section \<open>Properties of the string functions\<close>

declare str_split.simps [simp del] show_nat.simps [simp del]

lemma split_lead: "\<forall>c\<in>set ws. isspace c \<Longrightarrow> str_split (ws @ v) = str_split v"
  by (subst str_split.simps, subst (2) str_split.simps) (simp add: dropWhile_append2)

lemma split_nil: "\<forall>c\<in>set ws. isspace c \<Longrightarrow> str_split ws = []"
  by (subst str_split.simps) simp

lemma split_word:
  assumes "w \<noteq> []" "\<forall>c\<in>set w. \<not> isspace c" "r = [] \<or> isspace (hd r)"
  shows "str_split (w @ r) = w # str_split r"
proof -
  from assms(1,2) have h: "\<not> isspace (hd w)" by (cases w) auto
  have d: "dropWhile isspace (w @ r) = w @ r" using h assms(1) by (cases w) auto
  have t: "takeWhile (\<lambda>c. \<not> isspace c) (w @ r) = w"
    using assms(2,3) by (cases r) (auto simp: takeWhile_append2 takeWhile_eq_all_conv)
  have e: "dropWhile (\<lambda>c. \<not> isspace c) (w @ r) = r"
    using assms(2,3) by (cases r) (auto simp: dropWhile_append2)
  show ?thesis by (subst str_split.simps) (simp add: d t e assms(1) Let_def)
qed

text \<open>How a string that does not start with whitespace falls into its first word and the rest.\<close>

lemma first_word:
  assumes "s \<noteq> []" "\<not> isspace (hd s)"
  obtains w r where "s = w @ r" "w \<noteq> []" "\<forall>c\<in>set w. \<not> isspace c" "r = [] \<or> isspace (hd r)"
proof
  let ?w = "takeWhile (\<lambda>c. \<not> isspace c) s" and ?r = "dropWhile (\<lambda>c. \<not> isspace c) s"
  show "s = ?w @ ?r" by simp
  show "?w \<noteq> []" using assms by (cases s) auto
  show "\<forall>c\<in>set ?w. \<not> isspace c" by (auto dest: set_takeWhileD)
  show "?r = [] \<or> isspace (hd ?r)" by (metis hd_dropWhile)
qed

lemma split_trail: "\<forall>c\<in>set ws. isspace c \<Longrightarrow> str_split (v @ ws) = str_split v"
proof (induction v rule: length_induct)
  case (1 v)
  let ?l = "takeWhile isspace v" and ?s = "dropWhile isspace v"
  have lead: "\<forall>c\<in>set ?l. isspace c" by (auto dest: set_takeWhileD)
  have v: "v = ?l @ ?s" by simp
  have a: "str_split (v @ ws) = str_split (?s @ ws)"
    by (subst v) (simp only: append_assoc split_lead [OF lead])
  have b: "str_split v = str_split ?s"
    by (subst v) (simp only: split_lead [OF lead])
  show ?case
  proof (cases "?s = []")
    case True
    have "str_split (?s @ ws) = []" using 1(2) by (simp only: True append_Nil split_nil)
    moreover have "str_split ?s = []" by (simp only: True split_nil list.set ball_empty)
    ultimately show ?thesis using a b by simp
  next
    case False
    then have "\<not> isspace (hd ?s)" by (rule hd_dropWhile)
    with False obtain w r where wr: "?s = w @ r" "w \<noteq> []" "\<forall>c\<in>set w. \<not> isspace c"
      "r = [] \<or> isspace (hd r)" by (rule first_word)
    have r': "r @ ws = [] \<or> isspace (hd (r @ ws))"
    proof (cases "r = []")
      case True
      then show ?thesis using 1(2) by (cases ws) auto
    next
      case False
      with wr(4) show ?thesis by (metis hd_append2)
    qed
    have "length r < length v"
      using wr(1,2) length_dropWhile_le [of isspace v] by (cases w) auto
    with 1(1) 1(2) have ih: "str_split (r @ ws) = str_split r" by blast
    have "str_split (?s @ ws) = w # str_split (r @ ws)"
      using split_word [OF wr(2,3) r'] by (simp add: wr(1))
    also have "\<dots> = str_split ?s" using split_word [OF wr(2,3,4)] by (simp add: wr(1) ih)
    finally show ?thesis using a b by simp
  qed
qed

lemma collapse_word:
  "\<forall>c\<in>set w. \<not> isspace c \<Longrightarrow> collapse b (w @ x) = w @ collapse (b \<and> w = []) x"
  by (induction w arbitrary: b) auto

lemma collapse_True_spaces: "\<forall>c\<in>set ws. isspace c \<Longrightarrow> collapse True (ws @ x) = collapse True x"
  by (induction ws) auto

lemma collapse_True_start: "x = [] \<or> \<not> isspace (hd x) \<Longrightarrow> collapse True x = collapse False x"
  by (cases x) auto

lemma collapse_False_spaces:
  "\<forall>c\<in>set ws. isspace c \<Longrightarrow> ws \<noteq> [] \<Longrightarrow> collapse False (ws @ x) = CHR ''_'' # collapse True x"
  by (cases ws) (auto simp: collapse_True_spaces)

lemma split_nonempty: "s \<noteq> [] \<Longrightarrow> \<not> isspace (hd s) \<Longrightarrow> str_split s \<noteq> []"
  by (subst str_split.simps) (cases s, auto simp: Let_def)

lemma join_Cons: "ws \<noteq> [] \<Longrightarrow> str_join sep (w # ws) = w @ sep @ str_join sep ws"
  by (cases ws) auto

text \<open>
  On a string with no whitespace at its end, joining the words with underscores is
  collapsing the runs of whitespace after the leading one.
\<close>

lemma join_split_collapse:
  "s = [] \<or> \<not> isspace (last s) \<Longrightarrow>
   str_join ''_'' (str_split s) = collapse False (dropWhile isspace s)"
proof (induction s rule: length_induct)
  case (1 s)
  let ?l = "takeWhile isspace s" and ?s = "dropWhile isspace s"
  have lead: "\<forall>c\<in>set ?l. isspace c" by (auto dest: set_takeWhileD)
  have s: "s = ?l @ ?s" by simp
  have b: "str_split s = str_split ?s"
    by (subst s) (simp only: split_lead [OF lead])
  show ?case
  proof (cases "?s = []")
    case True
    have "str_split ?s = []" by (simp only: True split_nil list.set ball_empty)
    moreover have "collapse False ?s = []" by (simp only: True collapse.simps)
    ultimately show ?thesis using b by simp
  next
    case False
    then have "\<not> isspace (hd ?s)" by (rule hd_dropWhile)
    with False obtain w r where wr: "?s = w @ r" "w \<noteq> []" "\<forall>c\<in>set w. \<not> isspace c"
      "r = [] \<or> isspace (hd r)" by (rule first_word)
    have sp: "str_split ?s = w # str_split r"
      using split_word [OF wr(2,3,4)] by (simp add: wr(1))
    have co: "collapse False ?s = w @ collapse False r"
      using collapse_word [OF wr(3), of False r] wr(2) by (simp add: wr(1))
    show ?thesis
    proof (cases "r = []")
      case True
      then show ?thesis using b sp co by (simp add: split_nil)
    next
      case rne: False
      have lastr: "\<not> isspace (last r)"
        using 1(2) rne s wr(1) by (metis False append_is_Nil_conv last_appendR)
      have len: "length r < length s"
        using wr(1,2) length_dropWhile_le [of isspace s] by (cases w) auto
      with 1(1) rne lastr
      have ih: "str_join ''_'' (str_split r) = collapse False (dropWhile isspace r)" by blast
      let ?m = "takeWhile isspace r" and ?r' = "dropWhile isspace r"
      have m: "\<forall>c\<in>set ?m. isspace c" "?m \<noteq> []"
        using wr(4) rne by (auto dest: set_takeWhileD simp: takeWhile_eq_Nil_iff)
      have r'ne: "?r' \<noteq> []"
        using lastr rne by (metis dropWhile_eq_Nil_conv last_in_set)
      then have hd': "\<not> isspace (hd ?r')" by (rule hd_dropWhile)
      have "str_split r = str_split ?r'"
        using split_lead [OF m(1), of ?r'] by simp
      then have ne: "str_split r \<noteq> []" using split_nonempty [OF r'ne hd'] by simp
      have "collapse False r = collapse False (?m @ ?r')" by simp
      also have "\<dots> = CHR ''_'' # collapse True ?r'" by (rule collapse_False_spaces [OF m])
      also have "\<dots> = CHR ''_'' # collapse False ?r'"
        using collapse_True_start [of ?r'] hd' by simp
      finally have cr: "collapse False r = CHR ''_'' # collapse False ?r'" .
      show ?thesis using b sp co cr ih by (simp add: join_Cons [OF ne])
    qed
  qed
qed

lemma rstrip_parts: "rstrip x @ rev (takeWhile isspace (rev x)) = x"
  unfolding rstrip_def by (metis rev_append rev_rev_ident takeWhile_dropWhile_id)

lemma lstrip_rstrip_parts:
  "v = takeWhile isspace v @ strip v @ rev (takeWhile isspace (rev (lstrip v)))"
proof -
  have "lstrip v = strip v @ rev (takeWhile isspace (rev (lstrip v)))"
    unfolding strip_def by (rule rstrip_parts [symmetric])
  then show ?thesis
    by (metis lstrip_def takeWhile_dropWhile_id)
qed

lemma rstrip_no_trail: "rstrip x = [] \<or> \<not> isspace (last (rstrip x))"
proof (cases "dropWhile isspace (rev x) = []")
  case True
  then show ?thesis by (simp only: rstrip_def rev.simps simp_thms)
next
  case False
  then have "\<not> isspace (hd (dropWhile isspace (rev x)))" by (rule hd_dropWhile)
  moreover have "last (rstrip x) = hd (dropWhile isspace (rev x))"
    unfolding rstrip_def using False by (simp only: last_rev)
  ultimately show ?thesis by simp
qed

lemma strip_no_trail: "strip v = [] \<or> \<not> isspace (last (strip v))"
  unfolding strip_def by (rule rstrip_no_trail)

lemma strip_no_lead: "strip v = [] \<or> \<not> isspace (hd (strip v))"
proof (cases "strip v = []")
  case False
  then have ne: "lstrip v \<noteq> []" by (auto simp: strip_def rstrip_def)
  then have h: "\<not> isspace (hd (lstrip v))" unfolding lstrip_def by (rule hd_dropWhile)
  obtain t where t: "lstrip v = strip v @ t"
    using lstrip_rstrip_parts [of v] by (metis lstrip_def same_append_eq takeWhile_dropWhile_id)
  with False h show ?thesis by (metis hd_append2)
qed simp

lemma tag_value_strip: "tag_value v = tag_value (strip v)"
proof -
  have l: "\<forall>c\<in>set (takeWhile isspace v). isspace c" by (auto dest: set_takeWhileD)
  have t: "\<forall>c\<in>set (rev (takeWhile isspace (rev (lstrip v)))). isspace c"
    by (auto dest: set_takeWhileD)
  have "str_split v = str_split (takeWhile isspace v @ strip v @ rev (takeWhile isspace (rev (lstrip v))))"
    using lstrip_rstrip_parts [of v] by simp
  also have "\<dots> = str_split (strip v)"
    by (simp only: split_lead [OF l] split_trail [OF t])
  finally show ?thesis by (simp add: tag_value_def)
qed

lemma tag_value_collapse: "tag_value v = collapse False (strip v)"
proof -
  have "dropWhile isspace (strip v) = strip v"
    using strip_no_lead [of v] by (cases "strip v") auto
  then show ?thesis
    using join_split_collapse [OF strip_no_trail, of v] tag_value_strip [of v]
    by (simp add: tag_value_def)
qed

lemma split_words_no_space: "w \<in> set (str_split s) \<Longrightarrow> c \<in> set w \<Longrightarrow> \<not> isspace c"
proof (induction s rule: str_split.induct)
  case (1 s)
  show ?case
  proof (cases "dropWhile isspace s = []")
    case True
    then have "str_split s = []" by (subst str_split.simps) (simp add: Let_def)
    with 1(2) show ?thesis by simp
  next
    case False
    then have "str_split s = takeWhile (\<lambda>c. \<not> isspace c) (dropWhile isspace s) #
        str_split (dropWhile (\<lambda>c. \<not> isspace c) (dropWhile isspace s))"
      by (subst str_split.simps) (simp add: Let_def)
    with 1(2) have "w = takeWhile (\<lambda>c. \<not> isspace c) (dropWhile isspace s) \<or>
        w \<in> set (str_split (dropWhile (\<lambda>c. \<not> isspace c) (dropWhile isspace s)))"
      by simp
    then show ?thesis
    proof
      assume "w = takeWhile (\<lambda>c. \<not> isspace c) (dropWhile isspace s)"
      with 1(3) show ?thesis by (auto dest: set_takeWhileD)
    next
      assume "w \<in> set (str_split (dropWhile (\<lambda>c. \<not> isspace c) (dropWhile isspace s)))"
      with 1(1) [OF refl False] 1(3) show ?thesis by simp
    qed
  qed
qed

lemma join_chars: "c \<in> set (str_join sep ws) \<Longrightarrow> c \<in> set sep \<or> (\<exists>w\<in>set ws. c \<in> set w)"
  by (induction sep ws rule: str_join.induct) auto

lemma tag_value_no_space: "c \<in> set (tag_value v) \<Longrightarrow> \<not> isspace c"
proof -
  assume "c \<in> set (tag_value v)"
  then have "c \<in> set ''_'' \<or> (\<exists>w\<in>set (str_split v). c \<in> set w)"
    unfolding tag_value_def by (rule join_chars)
  then show ?thesis
    by (auto simp: isspace_def dest: split_words_no_space)
qed

lemma collapse_last:
  "v \<noteq> [] \<Longrightarrow> \<not> isspace (last v) \<Longrightarrow> collapse b v \<noteq> [] \<and> last (collapse b v) = last v"
  by (induction v arbitrary: b) (auto split: if_splits)

lemma strip_id: "v = [] \<or> \<not> isspace (hd v) \<and> \<not> isspace (last v) \<Longrightarrow> strip v = v"
proof (cases "v = []")
  case True
  then show ?thesis by (simp add: strip_def lstrip_def rstrip_def)
next
  case False
  assume "v = [] \<or> \<not> isspace (hd v) \<and> \<not> isspace (last v)"
  with False have h: "\<not> isspace (hd v)" "\<not> isspace (last v)" by auto
  from False h(1) have l: "lstrip v = v" by (cases v) (auto simp: lstrip_def)
  from False h(2) have "dropWhile isspace (rev v) = rev v"
    by (cases "rev v") (auto simp: last_rev dest: arg_cong [where f = hd])
  then show ?thesis by (simp add: strip_def l rstrip_def)
qed

lemma replace_internal_runs_core:
  assumes "v = [] \<or> \<not> isspace (hd v) \<and> \<not> isspace (last v)"
  shows "replace_internal_runs v = collapse False (strip v)"
proof (cases "v = []")
  case True
  then show ?thesis by (simp add: replace_internal_runs_def strip_def lstrip_def rstrip_def)
next
  case False
  with assms have h: "\<not> isspace (hd v)" "\<not> isspace (last v)" by auto
  from False h(1) have l: "lstrip v = v" "takeWhile isspace v = []"
    by (cases v, auto simp: lstrip_def)+
  from False h(2) have "takeWhile isspace (rev v) = []"
    by (cases "rev v") (auto simp: last_rev dest: arg_cong [where f = hd])
  then show ?thesis by (simp add: replace_internal_runs_def l)
qed

section \<open>Properties of the file system operations\<close>

lemma os_mkdir_Inr:
  assumes "os_mkdir w s = Inr w'"
  obtains p where "resolve w s = Some p" "lookup w p = None" "p \<noteq> []"
    "is_Dir (lookup w (butlast p))" "w' = w\<lparr>fs := AList.update p Dir (fs w)\<rparr>"
  using assms unfolding os_mkdir_def by (auto split: option.splits if_splits)

lemma write_file_Inr:
  assumes "write_file w s c = Inr w'"
  obtains p where "resolve w s = Some p" "p \<noteq> []" "last s \<noteq> CHR ''/''" "\<not> is_Dir (lookup w p)"
    "is_File (lookup w p) \<or> is_Dir (lookup w (butlast p))"
    "w' = w\<lparr>fs := AList.update p (File c) (fs w)\<rparr>"
  using assms unfolding write_file_def by (auto split: option.splits if_splits)

lemma read_file_Inr: "read_file w s = Inr c \<longleftrightarrow> stat w s = Some (File c)"
  unfolding read_file_def by (auto split: option.splits entry.splits)

lemma shutil_copy_Inr:
  assumes "shutil_copy w src dst = Inr w'"
  obtains c dst' where
    "dst' = (if os_path_isdir w dst then os_path_join dst (os_path_basename src) else dst)"
    "\<not> samefile w src dst'" "stat w src = Some (File c)" "write_file w dst' c = Inr w'"
  using assms unfolding shutil_copy_def Let_def
  by (auto split: if_splits sum.splits simp: read_file_Inr)

lemma MP3_Inr: "MP3 w f = Inr tags \<longleftrightarrow> (\<exists>a. stat w f = Some (File (Audio tags a)))"
  unfolding MP3_def read_file_def
  by (auto split: sum.splits content.splits option.splits entry.splits)

lemma add_file_Inr:
  assumes "add_file self w f = Inr (self', w')"
  obtains tags raw w1 w2 where
    "MP3 w f = Inr tags" "raw_tag_value tags (tag self) = Inr raw"
    "if os_path_exists w (os_path_join (dest_dir self) (tag_value raw)) then w1 = w
     else os_mkdir w (os_path_join (dest_dir self) (tag_value raw)) = Inr w1"
    "shutil_copy w1 f (os_path_join (dest_dir self) (tag_value raw)) = Inr w2"
    "self' = self\<lparr>copied_files := copied_files self + 1\<rparr>"
    "w' = w2\<lparr>out := out w2 @ [copied_line f (os_path_join (dest_dir self) (tag_value raw))]\<rparr>"
  using assms unfolding add_file_def Let_def
  by (auto split: sum.splits if_splits)

lemma add_file_Inl:
  assumes "add_file self w f = Inl (e, w1)"
  shows "w1 = w \<or> (\<exists>d. os_mkdir w d = Inr w1)"
  using assms unfolding add_file_def Let_def
  by (auto split: sum.splits if_splits)


lemma os_mkdir_streams: "os_mkdir w s = Inr w' \<Longrightarrow> out w' = out w \<and> err w' = err w"
  by (erule os_mkdir_Inr) simp

lemma shutil_copy_streams: "shutil_copy w src dst = Inr w' \<Longrightarrow> out w' = out w \<and> err w' = err w"
  by (erule shutil_copy_Inr, erule write_file_Inr) simp

lemma grows_refl [simp]: "grows w w"
  by (simp add: grows_def)

lemma grows_trans: "grows a b \<Longrightarrow> grows b c \<Longrightarrow> grows a c"
  unfolding grows_def by (elim conjE exE, intro conjI) auto

lemma grows_out [simp]: "grows w (w\<lparr>out := out w @ xs\<rparr>)"
  by (simp add: grows_def lookup_def)

lemma grows_err [simp]: "grows w (w\<lparr>err := err w @ xs\<rparr>)"
  by (simp add: grows_def lookup_def)

lemma lookup_update [simp]:
  "lookup (w\<lparr>fs := AList.update p e (fs w)\<rparr>) q = (if q = p then Some e else lookup w q)"
  by (simp add: lookup_def update_conv')

lemma grows_new:
  assumes "lookup w p = None"
  shows "grows w (w\<lparr>fs := AList.update p e (fs w)\<rparr>)"
  using assms unfolding grows_def
  by (auto simp: is_Dir_def is_File_def update_keys)

lemma grows_overwrite:
  assumes "is_File (lookup w p)"
  shows "grows w (w\<lparr>fs := AList.update p (File c) (fs w)\<rparr>)"
  using assms unfolding grows_def
  by (auto simp: is_Dir_def is_File_def update_keys)

lemma os_mkdir_grows: "os_mkdir w s = Inr w' \<Longrightarrow> grows w w'"
  by (erule os_mkdir_Inr) (simp add: grows_new)

lemma write_file_grows: "write_file w s c = Inr w' \<Longrightarrow> grows w w'"
proof (erule write_file_Inr)
  fix p
  assume a: "\<not> is_Dir (lookup w p)" "is_File (lookup w p) \<or> is_Dir (lookup w (butlast p))"
    and w': "w' = w\<lparr>fs := AList.update p (File c) (fs w)\<rparr>"
  show "grows w w'"
  proof (cases "is_File (lookup w p)")
    case True
    then show ?thesis unfolding w' by (rule grows_overwrite)
  next
    case False
    with a(1) have "lookup w p = None"
      by (cases "lookup w p") (auto simp: is_Dir_def is_File_def split: entry.splits)
    then show ?thesis unfolding w' by (rule grows_new)
  qed
qed

lemma shutil_copy_grows: "shutil_copy w src dst = Inr w' \<Longrightarrow> grows w w'"
  by (erule shutil_copy_Inr) (rule write_file_grows)

lemma add_file_grows_Inr: "add_file self w f = Inr (self', w') \<Longrightarrow> grows w w'"
proof (erule add_file_Inr)
  fix tags raw w1 w2
  assume 1: "if os_path_exists w (os_path_join (dest_dir self) (tag_value raw)) then w1 = w
     else os_mkdir w (os_path_join (dest_dir self) (tag_value raw)) = Inr w1"
    and 2: "shutil_copy w1 f (os_path_join (dest_dir self) (tag_value raw)) = Inr w2"
    and 3: "w' = w2\<lparr>out := out w2 @ [copied_line f (os_path_join (dest_dir self) (tag_value raw))]\<rparr>"
  from 1 have "grows w w1" by (auto split: if_splits intro: os_mkdir_grows)
  moreover from 2 have "grows w1 w2" by (rule shutil_copy_grows)
  moreover have "grows w2 w'" unfolding 3 by simp
  ultimately show "grows w w'" by (blast intro: grows_trans)
qed

lemma add_file_grows_Inl: "add_file self w f = Inl (e, w') \<Longrightarrow> grows w w'"
  by (drule add_file_Inl) (auto intro: os_mkdir_grows)

lemma walk_callback_grows:
  "walk_callback (self, w) d es = (self', w') \<Longrightarrow> grows w w'"
proof (induction es arbitrary: self w)
  case Nil
  then show ?case by simp
next
  case (Cons e es)
  show ?case
  proof (cases "is_mp3 w (entry_path w d e)")
    case False
    with Cons show ?thesis by simp
  next
    case True
    show ?thesis
    proof (cases "add_file self w (entry_path w d e)")
      case (Inl a)
      obtain x w1 where a: "a = (x, w1)" by (cases a)
      have g: "grows w w1" using Inl a by (auto intro: add_file_grows_Inl)
      have "grows w1 (w1\<lparr>err := err w1 @ [cannot_copy_line (entry_path w d e) x]\<rparr>)" by simp
      moreover have "grows (w1\<lparr>err := err w1 @ [cannot_copy_line (entry_path w d e) x]\<rparr>) w'"
        using Cons.prems True Inl a by (intro Cons.IH) (simp add: Let_def)
      ultimately show ?thesis using g by (blast intro: grows_trans)
    next
      case (Inr b)
      obtain self1 w1 where b: "b = (self1, w1)" by (cases b)
      have g: "grows w w1" using Inr b by (auto intro: add_file_grows_Inr)
      have "grows w1 w'" using Cons.prems True Inr b by (intro Cons.IH) (simp add: Let_def)
      with g show ?thesis by (blast intro: grows_trans)
    qed
  qed
qed

lemma walk_grows:
  "os_path_walk n t s = Some s' \<Longrightarrow> grows (snd s) (snd s')"
  "walk_names n t names s = Some s' \<Longrightarrow> grows (snd s) (snd s')"
proof (induction n t s and n t names s arbitrary: s' and s' rule: os_path_walk_walk_names.induct)
  case (1 t s)
  then show ?case by simp
next
  case (2 n t s)
  show ?case
  proof (cases "os_listdir (snd s) t")
    case (Inl a)
    with 2 show ?thesis by simp
  next
    case (Inr names)
    have "grows (snd s) (snd (walk_callback s t names))"
      by (cases s, cases "walk_callback s t names") (auto dest: walk_callback_grows)
    moreover have "grows (snd (walk_callback s t names)) (snd s')"
      using 2 Inr by simp
    ultimately show ?thesis by (rule grows_trans)
  qed
next
  case (3 n t s)
  then show ?case by simp
next
  case (4 n t name names s)
  show ?case
  proof (cases "os_path_isdir (snd s) (os_path_join t name)")
    case False
    with 4 show ?thesis by (simp add: Let_def)
  next
    case True
    with "4.prems" obtain s1 where s1: "os_path_walk n (os_path_join t name) s = Some s1"
      "walk_names n t names s1 = Some s'"
      by (auto simp: Let_def split: option.splits)
    have "grows (snd s) (snd s1)" using "4.IH"(1) True s1 by simp
    moreover have "grows (snd s1) (snd s')" using "4.IH"(2) True s1 by simp
    ultimately show ?thesis by (rule grows_trans)
  qed
qed


section \<open>Path names and the growing world\<close>

lemma split_on_nonempty [simp]: "split_on c s \<noteq> []"
  by (induction s) (auto split: list.splits)

lemma split_on_append: "split_on c (a @ c # b) = split_on c a @ split_on c b"
proof (induction a)
  case Nil
  then show ?case by simp
next
  case (Cons x a)
  obtain w ws where "split_on c a = w # ws" by (cases "split_on c a") auto
  with Cons show ?case by simp
qed

lemma split_on_none: "c \<notin> set n \<Longrightarrow> split_on c n = [n]"
  by (induction n) auto

lemma components_snoc_slash: "components (t @ ''/'') = components t"
  using split_on_append [of "CHR ''/''" t "[]"] by (simp add: components_def)

lemma components_slash_name:
  "valid_name n \<Longrightarrow> components (t @ CHR ''/'' # n) = components t @ [n]"
  using split_on_append [of "CHR ''/''" t n]
  by (simp add: components_def valid_name_def split_on_none)

lemma valid_name_hd: "valid_name n \<Longrightarrow> n \<noteq> [] \<and> hd n \<noteq> CHR ''/''"
  by (cases n) (auto simp: valid_name_def)

lemma components_join:
  assumes "valid_name n" "t \<noteq> []"
  shows "components (os_path_join t n) = components t @ [n]"
proof (cases "last t = CHR ''/''")
  case True
  with assms(2) obtain t0 where t: "t = t0 @ ''/''"
    by (metis append_butlast_last_id)
  have "os_path_join t n = t0 @ CHR ''/'' # n"
    using valid_name_hd [OF assms(1)] True by (simp add: os_path_join_def t)
  then show ?thesis
    using components_slash_name [OF assms(1), of t0] components_snoc_slash [of t0]
    by (simp add: t)
next
  case False
  have "os_path_join t n = t @ CHR ''/'' # n"
    using valid_name_hd [OF assms(1)] assms(2) False by (simp add: os_path_join_def)
  then show ?thesis using components_slash_name [OF assms(1), of t] by simp
qed

lemma join_isabs:
  "valid_name n \<Longrightarrow> t \<noteq> [] \<Longrightarrow>
   os_path_join t n \<noteq> [] \<and> os_path_isabs (os_path_join t n) = os_path_isabs t"
  by (auto simp: os_path_join_def os_path_isabs_def dest: valid_name_hd)

lemma resolve_from_append:
  "resolve_from f cur (xs @ ys) =
   (case resolve_from f cur xs of None \<Rightarrow> None | Some q \<Rightarrow> resolve_from f q ys)"
  by (induction f cur xs rule: resolve_from.induct) auto

lemma resolve_from_name:
  "valid_name n \<Longrightarrow>
   resolve_from f cur [n] = (if is_Dir (f cur) then Some (cur @ [n]) else None)"
  by (auto simp: valid_name_def)

lemma resolve_join:
  assumes "valid_name n" "t \<noteq> []"
  shows "resolve w (os_path_join t n) =
    (case resolve w t of
       None \<Rightarrow> None
     | Some p \<Rightarrow> if is_Dir (lookup w p) then Some (p @ [n]) else None)"
proof -
  let ?start = "if os_path_isabs t then [] else cwd w"
  have "resolve w (os_path_join t n) =
      resolve_from (lookup w) ?start (components t @ [n])"
    using join_isabs [OF assms] by (simp add: resolve_def components_join [OF assms])
  also have "\<dots> = (case resolve_from (lookup w) ?start (components t) of
       None \<Rightarrow> None
     | Some p \<Rightarrow> if is_Dir (lookup w p) then Some (p @ [n]) else None)"
    by (simp only: resolve_from_append resolve_from_name [OF assms(1)])
  also have "resolve_from (lookup w) ?start (components t) = resolve w t"
    using assms(2) by (simp add: resolve_def)
  finally show ?thesis .
qed

lemma resolve_from_mono:
  assumes "\<And>p. is_Dir (f p) \<Longrightarrow> is_Dir (g p)"
  shows "resolve_from f cur cs = Some p \<Longrightarrow> resolve_from g cur cs = Some p"
  by (induction cs arbitrary: cur) (auto split: if_splits dest: assms)

lemma resolve_mono: "grows w w' \<Longrightarrow> resolve w s = Some p \<Longrightarrow> resolve w' s = Some p"
  unfolding resolve_def grows_def
  by (auto split: if_splits elim!: resolve_from_mono [rotated])

lemma stat_mono_dir: "grows w w' \<Longrightarrow> stat w s = Some Dir \<Longrightarrow> stat w' s = Some Dir"
proof -
  assume g: "grows w w'" and s: "stat w s = Some Dir"
  from s obtain p where p: "resolve w s = Some p" "lookup w p = Some Dir"
    by (auto simp: stat_def split: option.splits if_splits)
  from g p(1) have "resolve w' s = Some p" by (rule resolve_mono)
  moreover from g p(2) have "lookup w' p = Some Dir" by (auto simp: grows_def is_Dir_def)
  ultimately show ?thesis by (simp add: stat_def)
qed

lemma stat_mono_file: "grows w w' \<Longrightarrow> is_File (stat w s) \<Longrightarrow> is_File (stat w' s)"
proof -
  assume g: "grows w w'" and s: "is_File (stat w s)"
  from s obtain p where p: "resolve w s = Some p" "is_File (lookup w p)" "last s \<noteq> CHR ''/''"
    by (auto simp: stat_def is_File_def split: option.splits if_splits entry.splits)
  from g p(1) have "resolve w' s = Some p" by (rule resolve_mono)
  moreover from g p(2) have "is_File (lookup w' p)" by (auto simp: grows_def)
  ultimately show ?thesis using p(3)
    by (auto simp: stat_def is_File_def split: option.splits entry.splits)
qed

lemma isdir_mono: "grows w w' \<Longrightarrow> os_path_isdir w s \<Longrightarrow> os_path_isdir w' s"
  by (auto simp: os_path_isdir_def is_Dir_def dest: stat_mono_dir)

lemma isfile_mono: "grows w w' \<Longrightarrow> os_path_isfile w s \<Longrightarrow> os_path_isfile w' s"
  by (auto simp: os_path_isfile_def dest: stat_mono_file)

lemma entry_path_grows: "grows w w' \<Longrightarrow> entry_path w' d e = entry_path w d e"
  by (simp add: entry_path_def os_path_abspath_def os_getcwd_def grows_def)

lemma is_mp3_mono: "grows w w' \<Longrightarrow> is_mp3 w p \<Longrightarrow> is_mp3 w' p"
  by (auto simp: is_mp3_def dest: isfile_mono)

lemma children_mono: "grows w w' \<Longrightarrow> \<exists>ns. children w' d = children w d @ ns"
  by (auto simp: grows_def children_def)

lemma listdir_mono:
  assumes "grows w w'" "os_listdir w s = Inr names"
  shows "\<exists>ns. os_listdir w' s = Inr (names @ ns)"
proof -
  from assms(2) obtain p where p: "resolve w s = Some p" "lookup w p = Some Dir"
    "names = children w p"
    by (auto simp: os_listdir_def split: option.splits entry.splits)
  from assms(1) p(1) have "resolve w' s = Some p" by (rule resolve_mono)
  moreover from assms(1) p(2) have "lookup w' p = Some Dir" by (auto simp: grows_def is_Dir_def)
  ultimately show ?thesis using children_mono [OF assms(1), of p] p(3)
    by (auto simp: os_listdir_def)
qed

section \<open>The constructor\<close>

lemma update_new: "map_of al k = None \<Longrightarrow> AList.update k v al = al @ [(k, v)]"
  by (induction al) (auto split: if_splits)

lemma init_exists: "os_path_exists w d \<Longrightarrow>
  init w s d t = Inr (\<lparr>source_dir = s, dest_dir = d, tag = t, copied_files = 0, copy_fails = 0\<rparr>, w)"
  by (simp add: init_def)

lemma os_mkdir_new:
  assumes "resolve w d = Some p" "lookup w p = None" "p \<noteq> []" "is_Dir (lookup w (butlast p))"
  shows "os_mkdir w d = Inr (w\<lparr>fs := fs w @ [(p, Dir)]\<rparr>)"
  using assms by (simp add: os_mkdir_def update_new [OF assms(2) [unfolded lookup_def]])

lemma not_exists_new:
  "resolve w d = Some p \<Longrightarrow> lookup w p = None \<Longrightarrow> \<not> os_path_exists w d"
  by (simp add: os_path_exists_def stat_def)

lemma isdir_after_mkdir:
  assumes "os_mkdir w d = Inr w'"
  shows "os_path_isdir w' d \<and> os_path_exists w' d"
proof -
  from assms obtain p where p: "resolve w d = Some p"
    "w' = w\<lparr>fs := AList.update p Dir (fs w)\<rparr>" by (rule os_mkdir_Inr)
  from assms have "grows w w'" by (rule os_mkdir_grows)
  then have "resolve w' d = Some p" using p(1) by (rule resolve_mono)
  moreover have "lookup w' p = Some Dir" by (simp add: p(2))
  ultimately show ?thesis by (simp add: os_path_isdir_def os_path_exists_def stat_def is_Dir_def)
qed

lemma resolve_missing_parent:
  assumes "valid_name n" "parent \<noteq> []" "\<not> os_path_exists w parent"
  shows "resolve w (os_path_join parent n) = None"
  using assms(3) unfolding resolve_join [OF assms(1,2)]
  by (auto simp: os_path_exists_def stat_def is_Dir_def split: option.splits if_splits)

lemma init_missing_parent:
  assumes "valid_name n" "parent \<noteq> []" "\<not> os_path_exists w parent"
  shows "init w s (os_path_join parent n) t = Inl (ENOENT (os_path_join parent n))"
  using resolve_missing_parent [OF assms]
  by (simp add: init_def os_path_exists_def stat_def os_mkdir_def)

text \<open>
  C7. The constructor leaves an existing \<open>dest_dir\<close> and the file system as they are and
  raises nothing. When the path is absent and its parent is a directory, it makes the one
  directory, after which the path is a directory and a second construction changes
  nothing. It makes one level only: when the parent of \<open>dest_dir\<close> does not exist the
  constructor raises, and \<^verbatim>\<open>main\<close> ends with status 1 whatever the bound of the walk, so the
  run is never started.
\<close>

theorem init_makes_dest_dir:
  "(os_path_exists w d \<longrightarrow>
      init w s d t =
        Inr (\<lparr>source_dir = s, dest_dir = d, tag = t, copied_files = 0, copy_fails = 0\<rparr>, w)) \<and>
   (resolve w d = Some p \<and> lookup w p = None \<and> p \<noteq> [] \<and> is_Dir (lookup w (butlast p)) \<longrightarrow>
      \<not> os_path_exists w d \<and>
      init w s d t =
        Inr (\<lparr>source_dir = s, dest_dir = d, tag = t, copied_files = 0, copy_fails = 0\<rparr>,
             w\<lparr>fs := fs w @ [(p, Dir)]\<rparr>) \<and>
      os_path_isdir (w\<lparr>fs := fs w @ [(p, Dir)]\<rparr>) d \<and>
      init (w\<lparr>fs := fs w @ [(p, Dir)]\<rparr>) s d t =
        Inr (\<lparr>source_dir = s, dest_dir = d, tag = t, copied_files = 0, copy_fails = 0\<rparr>,
             w\<lparr>fs := fs w @ [(p, Dir)]\<rparr>)) \<and>
   (valid_name name \<and> parent \<noteq> [] \<and> \<not> os_path_exists w parent \<longrightarrow>
      init w s (os_path_join parent name) t = Inl (ENOENT (os_path_join parent name)) \<and>
      (t \<in> valid_tags \<and> s \<noteq> [] \<longrightarrow>
         (\<forall>n. main n \<lparr>opt_source_dir = Some s, opt_dest_dir = Some (os_path_join parent name),
                       opt_tag = Some t\<rparr> w =
            Some (1, w\<lparr>err := err w @ [uncaught_line (ENOENT (os_path_join parent name))]\<rparr>))))"
proof (intro conjI impI)
  show "init w s d t =
      Inr (\<lparr>source_dir = s, dest_dir = d, tag = t, copied_files = 0, copy_fails = 0\<rparr>, w)"
    if "os_path_exists w d" using that by (rule init_exists)
next
  assume a: "resolve w d = Some p \<and> lookup w p = None \<and> p \<noteq> [] \<and> is_Dir (lookup w (butlast p))"
  let ?w = "w\<lparr>fs := fs w @ [(p, Dir)]\<rparr>"
  from a have m: "os_mkdir w d = Inr ?w" by (intro os_mkdir_new) auto
  from a show ne: "\<not> os_path_exists w d" by (intro not_exists_new) auto
  with m show "init w s d t =
      Inr (\<lparr>source_dir = s, dest_dir = d, tag = t, copied_files = 0, copy_fails = 0\<rparr>, ?w)"
    by (simp add: init_def)
  from isdir_after_mkdir [OF m] show "os_path_isdir ?w d" by simp
  from isdir_after_mkdir [OF m] show "init ?w s d t =
      Inr (\<lparr>source_dir = s, dest_dir = d, tag = t, copied_files = 0, copy_fails = 0\<rparr>, ?w)"
    by (intro init_exists) simp
next
  assume a: "valid_name name \<and> parent \<noteq> [] \<and> \<not> os_path_exists w parent"
  then show i: "init w s (os_path_join parent name) t = Inl (ENOENT (os_path_join parent name))"
    by (intro init_missing_parent) auto
  assume "t \<in> valid_tags \<and> s \<noteq> []"
  moreover have "os_path_join parent name \<noteq> []"
    using a by (auto dest: join_isabs)
  ultimately show "\<forall>n. main n \<lparr>opt_source_dir = Some s, opt_dest_dir = Some (os_path_join parent name),
                       opt_tag = Some t\<rparr> w =
            Some (1, w\<lparr>err := err w @ [uncaught_line (ENOENT (os_path_join parent name))]\<rparr>)"
    using i by (auto simp: main_def falsy_def valid_tags_def)
qed


theorem init_makes_dest_dir_witness:
  "init ex_world ''music'' ''out'' ''artist'' = Inr (ex_organizer, ex_world_init) \<and>
   init ex_world_init ''music'' ''out'' ''artist'' = Inr (ex_organizer, ex_world_init) \<and>
   init ex_world ''music'' ''missing/out'' ''artist'' = Inl (ENOENT ''missing/out'') \<and>
   main 0 (ex_options\<lparr>opt_dest_dir := Some ''missing/out''\<rparr>) ex_world =
     Some (1, ex_world\<lparr>err := [uncaught_line (ENOENT ''missing/out'')]\<rparr>)"
proof -
  have 1: "resolve ex_world ''out'' = Some [''home'', ''out''] \<and>
      lookup ex_world [''home'', ''out''] = None \<and> [''home'', ''out''] \<noteq> [] \<and>
      is_Dir (lookup ex_world (butlast [''home'', ''out'']))" by code_simp
  have 2: "valid_name ''out'' \<and> ''missing'' \<noteq> [] \<and> \<not> os_path_exists ex_world ''missing''"
    by code_simp
  have 3: "''artist'' \<in> valid_tags \<and> ''music'' \<noteq> []" by (simp add: valid_tags_def)
  have 4: "os_path_join ''missing'' ''out'' = ''missing/out''" by code_simp
  have 5: "ex_world\<lparr>fs := fs ex_world @ [([''home'', ''out''], Dir)]\<rparr> = ex_world_init"
    "\<lparr>source_dir = ''music'', dest_dir = ''out'', tag = ''artist'', copied_files = 0,
      copy_fails = 0\<rparr> = ex_organizer"
    "\<lparr>opt_source_dir = Some ''music'', opt_dest_dir = Some ''missing/out'',
      opt_tag = Some ''artist''\<rparr> = ex_options\<lparr>opt_dest_dir := Some ''missing/out''\<rparr>"
    "err ex_world = []"
    by (simp_all add: ex_world_init_def ex_organizer_def ex_options_def ex_world_def)
  from init_makes_dest_dir [of ex_world "''out''" "''music''" "''artist''" "[''home'', ''out'']"
      "''out''" "''missing''"] 1 2 3
  show ?thesis unfolding 4 5 by simp
qed

section \<open>The bucket name\<close>

lemma add_file_copy_into:
  assumes "MP3 w f = Inr short_tags" and "raw_tag_value short_tags (tag self) = Inr raw"
  shows "add_file self w f = copy_into self w f (os_path_join (dest_dir self) (tag_value raw))"
  using assms by (simp add: add_file_def copy_into_def Let_def)

lemma raw_tag_value_cases:
  "(map_of short_tags t = None \<longrightarrow> raw_tag_value short_tags t = Inr ''unknown'') \<and>
   (map_of short_tags t = Some [] \<longrightarrow> raw_tag_value short_tags t = Inl IndexError) \<and>
   (\<forall>v vs. map_of short_tags t = Some (v # vs) \<longrightarrow> raw_tag_value short_tags t = Inr v)"
  by (simp add: raw_tag_value_def dict_get_def index0_def)

lemma tag_value_unknown: "tag_value ''unknown'' = ''unknown''"
  by (simp add: tag_value_collapse strip_id isspace_def)

lemma copy_into_out:
  assumes "copy_into self w f d = Inr (self', w')"
  shows "out w' = out w @ [copied_line f d]"
proof -
  from assms obtain w1 w2 where
    m: "if os_path_exists w d then w1 = w else os_mkdir w d = Inr w1" and
    c: "shutil_copy w1 f d = Inr w2" and
    w': "w' = w2\<lparr>out := out w2 @ [copied_line f d]\<rparr>"
    unfolding copy_into_def by (auto split: sum.splits if_splits)
  from m have "out w1 = out w" by (auto split: if_splits dest: os_mkdir_streams)
  with c have "out w2 = out w" by (auto dest: shutil_copy_streams)
  then show ?thesis by (simp add: w')
qed

lemma copy_into_mkdir_fails:
  "\<not> os_path_exists w d \<Longrightarrow> os_mkdir w d = Inl e \<Longrightarrow> copy_into self w f d = Inl (e, w)"
  by (simp add: copy_into_def)

text \<open>
  C3 (as the code has it). A processed file whose tags cannot be read fails with the error
  of the reader, before any bucket name. For every other processed file the bucket name
  is \<open>unknown\<close> when the tag is absent from the file's metadata, and otherwise the first
  value of the tag with the whitespace at both ends removed and every run of whitespace
  inside replaced by one underscore; for a value with no whitespace at its ends that is the
  raw value with each internal run of whitespace replaced by one underscore. The bucket
  name is the one of the directory \<open>dest_dir/b\<close> that \<^verbatim>\<open>_add_file\<close> goes on with, whether the
  directory can be made and the file copied or not: a copy that succeeds is reported with
  this directory, and a directory that cannot be made is the error of the file. A tag with
  an empty list of values has no first value: the file fails with \<open>IndexError\<close>.
\<close>

theorem bucket_name_of_processed_file:
  "(\<forall>e. MP3 w f = Inl e \<longrightarrow> add_file self w f = Inl (e, w)) \<and>
   (\<forall>short_tags. MP3 w f = Inr short_tags \<longrightarrow>
      (map_of short_tags (tag self) = None \<longrightarrow>
         add_file self w f = copy_into self w f (os_path_join (dest_dir self) ''unknown'')) \<and>
      (\<forall>v vs. map_of short_tags (tag self) = Some (v # vs) \<longrightarrow>
         add_file self w f =
           copy_into self w f (os_path_join (dest_dir self) (collapse False (strip v))) \<and>
         (v = [] \<or> \<not> isspace (hd v) \<and> \<not> isspace (last v) \<longrightarrow>
            collapse False (strip v) = replace_internal_runs v)) \<and>
      (map_of short_tags (tag self) = Some [] \<longrightarrow> add_file self w f = Inl (IndexError, w))) \<and>
   (\<forall>d self' w'. copy_into self w f d = Inr (self', w') \<longrightarrow>
      out w' = out w @ [copied_line f d]) \<and>
   (\<forall>d e. \<not> os_path_exists w d \<and> os_mkdir w d = Inl e \<longrightarrow>
      copy_into self w f d = Inl (e, w))"
proof -
  have z: "add_file self w f = Inl (e, w)" if "MP3 w f = Inl e" for e
    using that by (simp add: add_file_def)
  have a: "add_file self w f = copy_into self w f (os_path_join (dest_dir self) ''unknown'')"
    if "MP3 w f = Inr short_tags" "map_of short_tags (tag self) = None" for short_tags
    using add_file_copy_into [OF that(1), of self "''unknown''"] raw_tag_value_cases that(2)
    by (simp add: tag_value_unknown)
  have b: "add_file self w f =
      copy_into self w f (os_path_join (dest_dir self) (collapse False (strip v)))"
    if "MP3 w f = Inr short_tags" "map_of short_tags (tag self) = Some (v # vs)"
    for short_tags v vs
    using add_file_copy_into [OF that(1), of self v] raw_tag_value_cases that(2)
    by (simp add: tag_value_collapse)
  have c: "add_file self w f = Inl (IndexError, w)"
    if "MP3 w f = Inr short_tags" "map_of short_tags (tag self) = Some []" for short_tags
    using raw_tag_value_cases that by (simp add: add_file_def)
  have 1: "\<forall>e. MP3 w f = Inl e \<longrightarrow> add_file self w f = Inl (e, w)"
    using z by blast
  have 2: "\<forall>short_tags. MP3 w f = Inr short_tags \<longrightarrow>
      (map_of short_tags (tag self) = None \<longrightarrow>
         add_file self w f = copy_into self w f (os_path_join (dest_dir self) ''unknown'')) \<and>
      (\<forall>v vs. map_of short_tags (tag self) = Some (v # vs) \<longrightarrow>
         add_file self w f =
           copy_into self w f (os_path_join (dest_dir self) (collapse False (strip v))) \<and>
         (v = [] \<or> \<not> isspace (hd v) \<and> \<not> isspace (last v) \<longrightarrow>
            collapse False (strip v) = replace_internal_runs v)) \<and>
      (map_of short_tags (tag self) = Some [] \<longrightarrow> add_file self w f = Inl (IndexError, w))"
    using a b c by (simp add: replace_internal_runs_core)
  have 3: "\<forall>d self' w'. copy_into self w f d = Inr (self', w') \<longrightarrow>
      out w' = out w @ [copied_line f d]"
    by (simp add: copy_into_out)
  have 4: "\<forall>d e. \<not> os_path_exists w d \<and> os_mkdir w d = Inl e \<longrightarrow>
      copy_into self w f d = Inl (e, w)"
    by (simp add: copy_into_mkdir_fails)
  from 1 2 3 4 show ?thesis by (intro conjI)
qed

theorem bucket_name_of_processed_file_witness:
  "add_file ex_organizer ex_world_init ''/home/music/a.mp3'' =
     copy_into ex_organizer ex_world_init ''/home/music/a.mp3'' ''out/Guns_N_Roses'' \<and>
   add_file ex_organizer ex_world_init ''/home/music/b.mp3'' =
     copy_into ex_organizer ex_world_init ''/home/music/b.mp3'' ''out/unknown'' \<and>
   add_file ex_organizer ex_world_init ''/home/music/c.MP3'' =
     Inl (HeaderNotFoundError, ex_world_init) \<and>
   add_file ex_organizer (ex_acdc_world\<lparr>fs := fs ex_acdc_world @ [([''home'', ''out''], Dir)]\<rparr>)
       ''/home/music/a.mp3'' =
     Inl (ENOENT ''out/AC/DC'',
          ex_acdc_world\<lparr>fs := fs ex_acdc_world @ [([''home'', ''out''], Dir)]\<rparr>)"
proof -
  let ?w = "ex_acdc_world\<lparr>fs := fs ex_acdc_world @ [([''home'', ''out''], Dir)]\<rparr>"
  have 1: "MP3 ex_world_init ''/home/music/a.mp3'' =
    Inr [(''artist'', [''Guns N Roses'']), (''album'', [''Lies''])]"
    by code_simp
  have 2: "MP3 ex_world_init ''/home/music/b.mp3'' = Inr [(''album'', [''Demo''])]"
    by code_simp
  have 3: "MP3 ?w ''/home/music/a.mp3'' = Inr [(''artist'', [''AC/DC''])]"
    by code_simp
  have 4: "dest_dir ex_organizer = ''out''" "tag ex_organizer = ''artist''"
    by (simp_all add: ex_organizer_def)
  have 5: "os_path_join ''out'' (collapse False (strip ''Guns N Roses'')) = ''out/Guns_N_Roses''"
    "os_path_join ''out'' ''unknown'' = ''out/unknown''"
    "os_path_join ''out'' (collapse False (strip ''AC/DC'')) = ''out/AC/DC''"
    by code_simp+
  have 6: "\<not> os_path_exists ?w ''out/AC/DC''"
    "os_mkdir ?w ''out/AC/DC'' = Inl (ENOENT ''out/AC/DC'')"
    by code_simp+
  have 7: "MP3 ex_world_init ''/home/music/c.MP3'' = Inl HeaderNotFoundError"
    by code_simp
  note t = bucket_name_of_processed_file [where self = ex_organizer]
  note u = t [THEN conjunct2, THEN conjunct1, THEN spec, THEN mp]
  from u [OF 1]
  have a: "add_file ex_organizer ex_world_init ''/home/music/a.mp3'' =
     copy_into ex_organizer ex_world_init ''/home/music/a.mp3'' ''out/Guns_N_Roses''"
    unfolding 4 by (simp add: 5)
  from u [OF 2]
  have b: "add_file ex_organizer ex_world_init ''/home/music/b.mp3'' =
     copy_into ex_organizer ex_world_init ''/home/music/b.mp3'' ''out/unknown''"
    unfolding 4 by (simp add: 5)
  from t [THEN conjunct1, THEN spec, THEN mp, OF 7]
  have c: "add_file ex_organizer ex_world_init ''/home/music/c.MP3'' =
     Inl (HeaderNotFoundError, ex_world_init)" .
  from u [OF 3]
    t [where w = ?w and f = "''/home/music/a.mp3''", THEN conjunct2, THEN conjunct2,
       THEN conjunct2, THEN spec, THEN spec, THEN mp, OF conjI, OF 6]
  have d: "add_file ex_organizer ?w ''/home/music/a.mp3'' =
     Inl (ENOENT ''out/AC/DC'', ?w)"
    unfolding 4 by (simp add: 5)
  from a b c d show ?thesis by (intro conjI)
qed

text \<open>
  The claim as it is written fails on a value with whitespace at its ends: the raw value
  with each internal run replaced keeps the outer blanks, the code drops them.
\<close>

theorem bucket_name_keeps_outer_whitespace_counterexample:
  "tag_value '' Queen '' = ''Queen'' \<and> replace_internal_runs '' Queen '' = '' Queen ''"
  by code_simp

lemma tag_value_two_words:
  assumes "a \<noteq> []" "\<forall>c\<in>set a. \<not> isspace c" "m \<noteq> []" "\<forall>c\<in>set m. isspace c"
    "b \<noteq> []" "\<forall>c\<in>set b. \<not> isspace c"
  shows "tag_value (a @ m @ b) = a @ ''_'' @ b"
proof -
  from assms(3,4) have hm: "m @ b = [] \<or> isspace (hd (m @ b))" by (cases m) auto
  have 1: "str_split (a @ m @ b) = a # str_split (m @ b)"
    by (rule split_word [OF assms(1,2) hm])
  have 2: "str_split (m @ b) = str_split b" by (rule split_lead [OF assms(4)])
  have "str_split (b @ []) = b # str_split []"
    by (rule split_word [OF assms(5,6)]) simp
  moreover have "str_split [] = []" by (simp add: split_nil)
  ultimately have 3: "str_split b = [b]" by simp
  show ?thesis by (simp add: tag_value_def 1 2 3)
qed

text \<open>
  C10. Whitespace before and after a tag value does not reach the bucket name: the name is
  that of the value without it, it holds no whitespace at all, and it starts and ends with
  the first and the last other character of the value, not with an underscore put for the
  outer whitespace. Only the runs of whitespace inside become underscores, one for each
  run: the name is the value between the outer whitespace with every run replaced, so two
  words with whitespace between them give the two words with one underscore between them.
  A processed file with such a value goes to the directory of this name.
\<close>

theorem outer_whitespace_removed:
  assumes "\<forall>c\<in>set l. isspace c" and "\<forall>c\<in>set r. isspace c"
  shows "tag_value (l @ v @ r) = tag_value v \<and>
    (\<forall>c\<in>set (tag_value (l @ v @ r)). \<not> isspace c) \<and>
    (v \<noteq> [] \<and> \<not> isspace (hd v) \<and> \<not> isspace (last v) \<longrightarrow>
       hd (tag_value (l @ v @ r)) = hd v \<and> last (tag_value (l @ v @ r)) = last v) \<and>
    (v = [] \<or> \<not> isspace (hd v) \<and> \<not> isspace (last v) \<longrightarrow>
       tag_value (l @ v @ r) = collapse False v) \<and>
    (\<forall>a m b. v = a @ m @ b \<and> a \<noteq> [] \<and> (\<forall>c\<in>set a. \<not> isspace c) \<and>
       m \<noteq> [] \<and> (\<forall>c\<in>set m. isspace c) \<and> b \<noteq> [] \<and> (\<forall>c\<in>set b. \<not> isspace c) \<longrightarrow>
       tag_value (l @ v @ r) = a @ ''_'' @ b) \<and>
    (\<forall>self w f short_tags vs.
       MP3 w f = Inr short_tags \<and> map_of short_tags (tag self) = Some ((l @ v @ r) # vs) \<longrightarrow>
       add_file self w f = copy_into self w f (os_path_join (dest_dir self) (tag_value v)))"
proof -
  have e: "tag_value (l @ v @ r) = tag_value v"
    unfolding tag_value_def
    using split_lead [OF assms(1), of "v @ r"] split_trail [OF assms(2), of v] by simp
  have n: "\<forall>c\<in>set (tag_value (l @ v @ r)). \<not> isspace c"
    by (auto dest: tag_value_no_space)
  have h: "hd (tag_value v) = hd v \<and> last (tag_value v) = last v"
    if "v \<noteq> []" "\<not> isspace (hd v)" "\<not> isspace (last v)"
  proof -
    have s: "tag_value v = collapse False v"
      using that by (simp add: tag_value_collapse strip_id)
    have "hd (collapse False v) = hd v" using that by (cases v) auto
    with collapse_last [OF that(1,3), of False] s show ?thesis by simp
  qed
  have k: "tag_value v = collapse False v"
    if "v = [] \<or> \<not> isspace (hd v) \<and> \<not> isspace (last v)"
    using that by (simp add: tag_value_collapse strip_id)
  have t: "tag_value v = a @ ''_'' @ b"
    if "v = a @ m @ b" "a \<noteq> []" "\<forall>c\<in>set a. \<not> isspace c" "m \<noteq> []" "\<forall>c\<in>set m. isspace c"
      "b \<noteq> []" "\<forall>c\<in>set b. \<not> isspace c" for a m b
    unfolding that(1) using that(2-7) by (rule tag_value_two_words)
  have p: "add_file self w f = copy_into self w f (os_path_join (dest_dir self) (tag_value v))"
    if "MP3 w f = Inr short_tags" "map_of short_tags (tag self) = Some ((l @ v @ r) # vs)"
    for self w f short_tags vs
  proof -
    from that(2) have "raw_tag_value short_tags (tag self) = Inr (l @ v @ r)"
      using raw_tag_value_cases by blast
    from add_file_copy_into [OF that(1) this] show ?thesis by (simp only: e)
  qed
  have 1: "tag_value (l @ v @ r) = tag_value v" by (rule e)
  have 2: "\<forall>c\<in>set (tag_value (l @ v @ r)). \<not> isspace c" by (rule n)
  have 3: "v \<noteq> [] \<and> \<not> isspace (hd v) \<and> \<not> isspace (last v) \<longrightarrow>
       hd (tag_value (l @ v @ r)) = hd v \<and> last (tag_value (l @ v @ r)) = last v"
    using h by (simp only: e) blast
  have 4: "v = [] \<or> \<not> isspace (hd v) \<and> \<not> isspace (last v) \<longrightarrow>
       tag_value (l @ v @ r) = collapse False v"
    using k by (simp only: e) blast
  have 5: "\<forall>a m b. v = a @ m @ b \<and> a \<noteq> [] \<and> (\<forall>c\<in>set a. \<not> isspace c) \<and>
       m \<noteq> [] \<and> (\<forall>c\<in>set m. isspace c) \<and> b \<noteq> [] \<and> (\<forall>c\<in>set b. \<not> isspace c) \<longrightarrow>
       tag_value (l @ v @ r) = a @ ''_'' @ b"
    unfolding e by (intro allI impI, elim conjE) (rule t)
  have 6: "\<forall>self w f short_tags vs.
       MP3 w f = Inr short_tags \<and> map_of short_tags (tag self) = Some ((l @ v @ r) # vs) \<longrightarrow>
       add_file self w f = copy_into self w f (os_path_join (dest_dir self) (tag_value v))"
    by (intro allI impI, elim conjE) (rule p)
  from 1 2 3 4 5 6 show ?thesis by (intro conjI)
qed

theorem outer_whitespace_removed_witness:
  "tag_value ('' '' @ ''Queen'' @ '' '') = ''Queen'' \<and>
   hd (tag_value ('' '' @ ''Queen'' @ '' '')) = CHR ''Q'' \<and>
   tag_value (''  '' @ ''Guns N  Roses'' @ '' '') = ''Guns_N_Roses'' \<and>
   tag_value ('' '' @ (''AC'' @ ''  '' @ ''DC'') @ '' '') = ''AC'' @ ''_'' @ ''DC'' \<and>
   add_file ex_organizer ex_world_init ''/home/music/sub/d.mp3'' =
     copy_into ex_organizer ex_world_init ''/home/music/sub/d.mp3'' ''out/Queen''"
proof -
  have 1: "\<forall>c\<in>set '' ''. isspace c" "\<forall>c\<in>set ''  ''. isspace c" by (simp_all add: isspace_def)
  have 2: "tag_value ''Queen'' = ''Queen''" by code_simp
  have 3: "''Queen'' \<noteq> [] \<and> \<not> isspace (hd ''Queen'') \<and> \<not> isspace (last ''Queen'')"
    by (simp add: isspace_def)
  have 4: "''Guns N  Roses'' = [] \<or>
     \<not> isspace (hd ''Guns N  Roses'') \<and> \<not> isspace (last ''Guns N  Roses'')"
    by (simp add: isspace_def)
  have 5: "collapse False ''Guns N  Roses'' = ''Guns_N_Roses''" by code_simp
  have 6: "''AC'' @ ''  '' @ ''DC'' = ''AC'' @ ''  '' @ ''DC'' \<and>
    ''AC'' \<noteq> [] \<and> (\<forall>c\<in>set ''AC''. \<not> isspace c) \<and> ''  '' \<noteq> [] \<and>
    (\<forall>c\<in>set ''  ''. isspace c) \<and> ''DC'' \<noteq> [] \<and> (\<forall>c\<in>set ''DC''. \<not> isspace c)"
    by (simp add: isspace_def)
  have 7: "MP3 ex_world_init ''/home/music/sub/d.mp3'' = Inr [(''artist'', ['' Queen ''])] \<and>
    map_of [(''artist'', ['' Queen ''])] (tag ex_organizer) =
      Some (('' '' @ ''Queen'' @ '' '') # [])"
    by code_simp
  have 8: "os_path_join (dest_dir ex_organizer) ''Queen'' = ''out/Queen''" by code_simp
  have 9: "hd ''Queen'' = CHR ''Q''" by simp
  note q = outer_whitespace_removed [OF 1(1) 1(1), of "''Queen''"]
  note g = outer_whitespace_removed [OF 1(2) 1(1), of "''Guns N  Roses''"]
  note a = outer_whitespace_removed [OF 1(1) 1(1), of "''AC'' @ ''  '' @ ''DC''"]
  have a1: "tag_value ('' '' @ ''Queen'' @ '' '') = ''Queen''"
    using q [THEN conjunct1] by (simp only: 2)
  have a2: "hd (tag_value ('' '' @ ''Queen'' @ '' '')) = CHR ''Q''"
    using q [THEN conjunct2, THEN conjunct2, THEN conjunct1, THEN mp, OF 3, THEN conjunct1]
    by (simp only: 9)
  have a3: "tag_value (''  '' @ ''Guns N  Roses'' @ '' '') = ''Guns_N_Roses''"
    using g [THEN conjunct2, THEN conjunct2, THEN conjunct2, THEN conjunct1, THEN mp, OF 4]
    by (simp only: 5)
  have a4: "tag_value ('' '' @ (''AC'' @ ''  '' @ ''DC'') @ '' '') = ''AC'' @ ''_'' @ ''DC''"
    by (rule a [THEN conjunct2, THEN conjunct2, THEN conjunct2, THEN conjunct2, THEN conjunct1,
          THEN spec, THEN spec, THEN spec, THEN mp, OF 6])
  have a5: "add_file ex_organizer ex_world_init ''/home/music/sub/d.mp3'' =
     copy_into ex_organizer ex_world_init ''/home/music/sub/d.mp3'' ''out/Queen''"
    using q [THEN conjunct2, THEN conjunct2, THEN conjunct2, THEN conjunct2, THEN conjunct2,
          THEN spec, THEN spec, THEN spec, THEN spec, THEN spec, THEN mp, OF 7]
    by (simp only: 2 8)
  from a1 a2 a3 a4 a5 show ?thesis by (intro conjI)
qed

section \<open>The copy\<close>

lemma basename_rev: "os_path_basename s = rev (takeWhile (\<lambda>x. x \<noteq> CHR ''/'') (rev s))"
proof (cases "CHR ''/'' \<in> set s")
  case False
  then have "takeWhile (\<lambda>x. x \<noteq> CHR ''/'') (rev s) = rev s"
    by (auto simp: takeWhile_eq_all_conv)
  then have "rev (takeWhile (\<lambda>x. x \<noteq> CHR ''/'') (rev s)) = s" by (simp only: rev_rev_ident)
  moreover from False have "os_path_basename s = s" by (simp add: os_path_basename_def rfind_def)
  ultimately show ?thesis by simp
next
  case True
  let ?k = "length (takeWhile (\<lambda>x. x \<noteq> CHR ''/'') (rev s))"
  have "dropWhile (\<lambda>x. x \<noteq> CHR ''/'') (rev s) \<noteq> []"
    using True by (auto simp: dropWhile_eq_Nil_conv)
  moreover have "length (rev s) = ?k + length (dropWhile (\<lambda>x. x \<noteq> CHR ''/'') (rev s))"
    by (metis length_append takeWhile_dropWhile_id)
  ultimately have k: "?k < length s" by (cases "dropWhile (\<lambda>x. x \<noteq> CHR ''/'') (rev s)") auto
  have "nat (rfind s CHR ''/'' + 1) = length s - ?k"
    using True k by (simp add: rfind_def)
  then have "os_path_basename s = drop (length s - ?k) s" by (simp add: os_path_basename_def)
  also have "\<dots> = rev (take ?k (rev s))" by (simp add: rev_take)
  also have "take ?k (rev s) = takeWhile (\<lambda>x. x \<noteq> CHR ''/'') (rev s)"
    by (rule takeWhile_eq_take [symmetric])
  finally show ?thesis .
qed

lemma basename_no_slash: "CHR ''/'' \<notin> set (os_path_basename s)"
  unfolding basename_rev by (auto dest: set_takeWhileD)

lemma splitext_basename_valid:
  assumes "snd (os_path_splitext f) \<noteq> []"
  shows "valid_name (os_path_basename f)"
proof -
  let ?n = "nat (rfind f CHR ''/'' + 1)" and ?m = "nat (rfind f CHR ''.'')"
  from assms have "list_ex (\<lambda>c. c \<noteq> CHR ''.'') (drop ?n (take ?m f))"
    by (auto simp: os_path_splitext_def Let_def split: if_splits)
  then obtain x where x: "x \<in> set (drop ?n (take ?m f))" "x \<noteq> CHR ''.''"
    by (auto simp: list_ex_iff)
  have "set (drop ?n (take ?m f)) \<subseteq> set (drop ?n f)"
    by (simp add: drop_take set_take_subset)
  with x(1) have "x \<in> set (os_path_basename f)" by (auto simp: os_path_basename_def)
  with x(2) have "os_path_basename f \<noteq> [] \<and> os_path_basename f \<noteq> ''.'' \<and>
      os_path_basename f \<noteq> ''..''" by auto
  with basename_no_slash [of f] show ?thesis by (simp add: valid_name_def)
qed

lemma is_mp3_basename_valid: "is_mp3 w f \<Longrightarrow> valid_name (os_path_basename f)"
  by (rule splitext_basename_valid) (auto simp: is_mp3_def Let_def)

lemma stat_Some:
  "stat w s = Some e \<longleftrightarrow>
   (\<exists>p. resolve w s = Some p \<and> lookup w p = Some e \<and> (last s = CHR ''/'' \<longrightarrow> e = Dir))"
  by (auto simp: stat_def split: option.splits)

lemma exists_mono: "grows w w' \<Longrightarrow> os_path_exists w s \<Longrightarrow> os_path_exists w' s"
proof -
  assume g: "grows w w'" and "os_path_exists w s"
  then obtain e where e: "stat w s = Some e" by (auto simp: os_path_exists_def)
  show ?thesis
  proof (cases e)
    case (File c)
    with e have "is_File (stat w s)" by (simp add: is_File_def)
    with g have "is_File (stat w' s)" by (rule stat_mono_file)
    then show ?thesis by (cases "stat w' s") (auto simp: os_path_exists_def is_File_def)
  next
    case Dir
    with e g have "stat w' s = Some Dir" by (auto dest: stat_mono_dir)
    then show ?thesis by (simp add: os_path_exists_def)
  qed
qed

text \<open>The directory into which \<^verbatim>\<open>_add_file\<close> copies exists once the copy is reached.\<close>

lemma dest_after_mkdir:
  assumes "if os_path_exists w d then w1 = w else os_mkdir w d = Inr w1"
  shows "os_path_exists w1 d \<and> grows w w1 \<and> out w1 = out w \<and> err w1 = err w \<and>
    (\<forall>q. lookup w q \<noteq> None \<longrightarrow> lookup w1 q = lookup w q)"
proof (cases "os_path_exists w d")
  case True
  with assms show ?thesis by simp
next
  case False
  with assms have m: "os_mkdir w d = Inr w1" by simp
  from m obtain p where "lookup w p = None" "w1 = w\<lparr>fs := AList.update p Dir (fs w)\<rparr>"
    by (rule os_mkdir_Inr)
  then have "\<forall>q. lookup w q \<noteq> None \<longrightarrow> lookup w1 q = lookup w q" by auto
  with isdir_after_mkdir [OF m] os_mkdir_grows [OF m] os_mkdir_streams [OF m]
  show ?thesis by simp
qed

text \<open>What a successful \<^verbatim>\<open>_add_file\<close> has done, step by step.\<close>

lemma add_file_effect:
  assumes "add_file self w f = Inr (self', w')"
  obtains tags a raw w1 q pf where
    "stat w f = Some (File (Audio tags a))"
    "raw_tag_value tags (tag self) = Inr raw"
    "if os_path_exists w (os_path_join (dest_dir self) (tag_value raw)) then w1 = w
     else os_mkdir w (os_path_join (dest_dir self) (tag_value raw)) = Inr w1"
    "resolve w f = Some pf" "lookup w1 pf = Some (File (Audio tags a))"
    "resolve w1 (if os_path_isdir w1 (os_path_join (dest_dir self) (tag_value raw))
                 then os_path_join (os_path_join (dest_dir self) (tag_value raw))
                        (os_path_basename f)
                 else os_path_join (dest_dir self) (tag_value raw)) = Some q"
    "last (if os_path_isdir w1 (os_path_join (dest_dir self) (tag_value raw))
           then os_path_join (os_path_join (dest_dir self) (tag_value raw))
                  (os_path_basename f)
           else os_path_join (dest_dir self) (tag_value raw)) \<noteq> CHR ''/''"
    "q \<noteq> pf" "q \<noteq> []" "\<not> is_Dir (lookup w1 q)"
    "self' = self\<lparr>copied_files := copied_files self + 1\<rparr>"
    "w' = w1\<lparr>fs := AList.update q (File (Audio tags a)) (fs w1),
              out := out w @ [copied_line f (os_path_join (dest_dir self) (tag_value raw))]\<rparr>"
proof -
  from assms obtain tags raw w1 w2 where
    t: "MP3 w f = Inr tags" and r: "raw_tag_value tags (tag self) = Inr raw" and
    m: "if os_path_exists w (os_path_join (dest_dir self) (tag_value raw)) then w1 = w
        else os_mkdir w (os_path_join (dest_dir self) (tag_value raw)) = Inr w1" and
    c: "shutil_copy w1 f (os_path_join (dest_dir self) (tag_value raw)) = Inr w2" and
    s': "self' = self\<lparr>copied_files := copied_files self + 1\<rparr>" and
    w': "w' = w2\<lparr>out := out w2 @ [copied_line f (os_path_join (dest_dir self) (tag_value raw))]\<rparr>"
    by (rule add_file_Inr)
  let ?d = "os_path_join (dest_dir self) (tag_value raw)"
  let ?dst = "if os_path_isdir w1 ?d then os_path_join ?d (os_path_basename f) else ?d"
  from t obtain a where st: "stat w f = Some (File (Audio tags a))" by (auto simp: MP3_Inr)
  then obtain pf where pf: "resolve w f = Some pf" "lookup w pf = Some (File (Audio tags a))"
    "last f \<noteq> CHR ''/''" by (auto simp: stat_Some)
  from dest_after_mkdir [OF m] have g: "grows w w1" and o: "out w1 = out w"
    and k: "\<forall>q. lookup w q \<noteq> None \<longrightarrow> lookup w1 q = lookup w q" by auto
  from k pf(2) have l1: "lookup w1 pf = Some (File (Audio tags a))" by simp
  from g pf(1) have r1: "resolve w1 f = Some pf" by (rule resolve_mono)
  from r1 l1 pf(3) have st1: "stat w1 f = Some (File (Audio tags a))" by (simp add: stat_Some)
  from c obtain c' where ns: "\<not> samefile w1 f ?dst" and "stat w1 f = Some (File c')"
    and wr: "write_file w1 ?dst c' = Inr w2"
    by (rule shutil_copy_Inr) simp
  with st1 have c': "c' = Audio tags a" by simp
  from wr obtain q where q: "resolve w1 ?dst = Some q" "q \<noteq> []" "last ?dst \<noteq> CHR ''/''"
    "\<not> is_Dir (lookup w1 q)" "w2 = w1\<lparr>fs := AList.update q (File c') (fs w1)\<rparr>"
    by (rule write_file_Inr)
  have "q \<noteq> pf"
  proof
    assume "q = pf"
    with q(1,3) l1 have "stat w1 ?dst \<noteq> None" by (simp add: stat_Some)
    with st1 r1 q(1) \<open>q = pf\<close> have "samefile w1 f ?dst" by (simp add: samefile_def)
    with ns show False by simp
  qed
  moreover have "w' = w1\<lparr>fs := AList.update q (File (Audio tags a)) (fs w1),
              out := out w @ [copied_line f ?d]\<rparr>"
    by (simp add: w' q(5) c' o)
  ultimately show ?thesis using that [OF st r m pf(1) l1 q(1) q(3) _ q(2) q(4) s'] by simp
qed

lemma update_same: "map_of al k = Some v \<Longrightarrow> AList.update k v al = al"
  by (induction al) auto

lemma isdir_stable:
  assumes "grows w w'" "os_path_exists w d"
  shows "os_path_isdir w' d = os_path_isdir w d"
proof
  assume "os_path_isdir w d"
  with assms(1) show "os_path_isdir w' d" by (auto dest: isdir_mono)
next
  assume d: "os_path_isdir w' d"
  show "os_path_isdir w d"
  proof (rule ccontr)
    assume "\<not> os_path_isdir w d"
    with assms(2) have "is_File (stat w d)"
      by (cases "stat w d") (auto simp: os_path_exists_def os_path_isdir_def is_Dir_def
          is_File_def split: entry.splits)
    with assms(1) have "is_File (stat w' d)" by (rule stat_mono_file)
    with d show False
      by (auto simp: os_path_isdir_def is_Dir_def is_File_def)
  qed
qed

lemma join_empty:
  "d \<noteq> [] \<Longrightarrow> os_path_join d [] \<noteq> [] \<and> last (os_path_join d []) = CHR ''/'' \<and>
     resolve w (os_path_join d []) = resolve w d"
  using components_snoc_slash [of d]
  by (auto simp: os_path_join_def resolve_def os_path_isabs_def)

lemma tag_value_blank: "\<forall>c\<in>set raw. isspace c \<Longrightarrow> tag_value raw = []"
  by (simp add: tag_value_def split_nil)

text \<open>
  C9. A processed file whose tag value is not empty but all whitespace has the empty
  bucket name. When it is copied, the directory it goes to is \<open>dest_dir\<close> itself: after the
  call \<open>dest_dir\<close> is a directory that holds the file under its own name with the content
  of the source, and no other path has changed, so no subdirectory was made or used.
\<close>

theorem blank_value_goes_to_dest_dir:
  assumes "is_mp3 w f" and "MP3 w f = Inr short_tags"
    and "raw_tag_value short_tags (tag self) = Inr raw"
    and "raw \<noteq> []" and "\<forall>c\<in>set raw. isspace c"
    and "add_file self w f = Inr (self', w')"
  shows "tag_value raw = [] \<and>
    (\<exists>p c. resolve w (dest_dir self) = Some p \<and> read_file w f = Inr c \<and>
       is_Dir (lookup w' p) \<and>
       lookup w' (p @ [os_path_basename f]) = Some (File c) \<and>
       (\<forall>x. x \<noteq> p \<and> x \<noteq> p @ [os_path_basename f] \<longrightarrow> lookup w' x = lookup w x))"
proof -
  have tv: "tag_value raw = []" using assms(5) by (rule tag_value_blank)
  from assms(6) obtain tags a raw' wa q pf where
    st: "stat w f = Some (File (Audio tags a))" and
    r: "raw_tag_value tags (tag self) = Inr raw'" and
    m: "if os_path_exists w (os_path_join (dest_dir self) (tag_value raw')) then wa = w
     else os_mkdir w (os_path_join (dest_dir self) (tag_value raw')) = Inr wa" and
    q: "resolve wa (if os_path_isdir wa (os_path_join (dest_dir self) (tag_value raw'))
                 then os_path_join (os_path_join (dest_dir self) (tag_value raw'))
                        (os_path_basename f)
                 else os_path_join (dest_dir self) (tag_value raw')) = Some q" and
    w': "w' = wa\<lparr>fs := AList.update q (File (Audio tags a)) (fs wa),
              out := out w @ [copied_line f (os_path_join (dest_dir self) (tag_value raw'))]\<rparr>"
    by (rule add_file_effect)
  from st assms(2) have "tags = short_tags" by (auto simp: MP3_Inr)
  with r assms(3) have "raw' = raw" by simp
  note m = m [unfolded this tv] and q = q [unfolded this tv] and w' = w' [unfolded this tv]
  let ?d = "os_path_join (dest_dir self) []"
  let ?b = "os_path_basename f"
  have bn: "valid_name ?b" using assms(1) by (rule is_mp3_basename_valid)
  have dne: "dest_dir self \<noteq> []"
  proof
    assume e: "dest_dir self = []"
    then have "resolve w ?d = None" by (simp add: os_path_join_def resolve_def)
    then have "\<not> os_path_exists w ?d" "os_mkdir w ?d = Inl (ENOENT ?d)"
      by (simp_all add: os_path_exists_def stat_def os_mkdir_def)
    with m show False by simp
  qed
  note je = join_empty [OF dne]
  from dest_after_mkdir [OF m] have ga: "grows w wa" and ex: "os_path_exists wa ?d"
    and keep: "\<forall>x. lookup w x \<noteq> None \<longrightarrow> lookup wa x = lookup w x" by auto
  from ex je obtain p where p: "resolve wa ?d = Some p" "lookup wa p = Some Dir"
    by (auto simp: os_path_exists_def stat_Some)
  then have isd: "os_path_isdir wa ?d" by (simp add: os_path_isdir_def stat_def is_Dir_def)
  have "resolve wa (os_path_join ?d ?b) = Some (p @ [?b])"
    using je p by (simp add: resolve_join [OF bn] is_Dir_def)
  with q isd have qq: "q = p @ [?b]" by simp
  \<comment> \<open>the directory is the one \<open>dest_dir\<close> names in the world before\<close>
  have pw: "resolve w (dest_dir self) = Some p \<and> (\<forall>x. x \<noteq> p \<longrightarrow> lookup wa x = lookup w x)"
  proof (cases "os_path_exists w ?d")
    case True
    with m p je [of w] show ?thesis by simp
  next
    case False
    with m have mk: "os_mkdir w ?d = Inr wa" by simp
    then obtain p' where p': "resolve w ?d = Some p'"
      "wa = w\<lparr>fs := AList.update p' Dir (fs w)\<rparr>" by (rule os_mkdir_Inr)
    from ga p'(1) have "resolve wa ?d = Some p'" by (rule resolve_mono)
    with p(1) have "p' = p" by simp
    with p' je [of w] show ?thesis by simp
  qed
  have l': "\<And>x. lookup w' x = (if x = q then Some (File (Audio tags a)) else lookup wa x)"
    by (simp add: w' lookup_def update_conv')
  have "is_Dir (lookup w' p)" using p(2) qq by (simp add: l' is_Dir_def)
  moreover have "lookup w' (p @ [?b]) = Some (File (Audio tags a))" by (simp add: l' qq)
  moreover have "\<forall>x. x \<noteq> p \<and> x \<noteq> p @ [?b] \<longrightarrow> lookup w' x = lookup w x"
    using pw by (simp add: l' qq)
  moreover from st have "read_file w f = Inr (Audio tags a)" by (simp add: read_file_Inr)
  ultimately show ?thesis using tv pw by blast
qed

theorem blank_value_goes_to_dest_dir_witness:
  "tag_value ''  '' = [] \<and>
   lookup (snd (projr (add_file ex_organizer ex_world_init ''/home/music/sub/deep/e.Mp3'')))
     [''home'', ''out'', ''e.Mp3''] = Some (File (Audio [(''artist'', [''  ''])] ''eee'')) \<and>
   lookup (snd (projr (add_file ex_organizer ex_world_init ''/home/music/sub/deep/e.Mp3'')))
     [''home'', ''out'', ''unknown''] = None"
proof -
  let ?f = "''/home/music/sub/deep/e.Mp3''"
  let ?r = "projr (add_file ex_organizer ex_world_init ?f)"
  have 1: "is_mp3 ex_world_init ?f" by code_simp
  have 2: "MP3 ex_world_init ?f = Inr [(''artist'', [''  ''])]" by code_simp
  have 3: "raw_tag_value [(''artist'', [''  ''])] (tag ex_organizer) = Inr ''  ''" by code_simp
  have 4: "''  '' \<noteq> []" "\<forall>c\<in>set ''  ''. isspace c" by (simp_all add: isspace_def)
  have 5: "add_file ex_organizer ex_world_init ?f = Inr (fst ?r, snd ?r)" by code_simp
  have 6: "resolve ex_world_init (dest_dir ex_organizer) = Some [''home'', ''out'']"
    "read_file ex_world_init ?f = Inr (Audio [(''artist'', [''  ''])] ''eee'')"
    "os_path_basename ?f = ''e.Mp3''"
    "lookup ex_world_init [''home'', ''out'', ''unknown''] = None" by code_simp+
  from blank_value_goes_to_dest_dir [OF 1 2 3 4 5] 6 show ?thesis by auto
qed

lemma lookup_key: "lookup w p = Some e \<Longrightarrow> p \<in> set (map fst (fs w))"
  unfolding lookup_def by (drule map_of_SomeD) (simp add: rev_image_eqI)

lemma grows_by_keys:
  assumes "cwd w' = cwd w"
    and "\<forall>p\<in>set (map fst (fs w)).
           (is_Dir (lookup w p) \<longrightarrow> is_Dir (lookup w' p)) \<and>
           (is_File (lookup w p) \<longrightarrow> is_File (lookup w' p))"
    and "take (length (fs w)) (map fst (fs w')) = map fst (fs w)"
    and "take (length (out w)) (out w') = out w"
    and "take (length (err w)) (err w') = err w"
  shows "grows w w'"
proof -
  have k: "p \<in> set (map fst (fs w))" if "is_Dir (lookup w p) \<or> is_File (lookup w p)" for p
    using that by (cases "lookup w p") (auto simp: is_Dir_def is_File_def dest: lookup_key)
  have "\<exists>ks. map fst (fs w') = map fst (fs w) @ ks"
    using assms(3) by (metis append_take_drop_id)
  moreover have "\<exists>xs. out w' = out w @ xs" using assms(4) by (metis append_take_drop_id)
  moreover have "\<exists>xs. err w' = err w @ xs" using assms(5) by (metis append_take_drop_id)
  ultimately show ?thesis
    unfolding grows_def using assms(1,2) k by blast
qed

lemma copied_line_inj: "copied_line f d = copied_line f d' \<Longrightarrow> d = d'"
  by (simp add: copied_line_def)

text \<open>The run of the example, evaluated once.\<close>

lemma ex_run: "run 5 (ex_organizer, ex_world_init) = Some (ex_organizer_done, ex_world_done)"
  by code_simp

text \<open>
  C4 (as the code has it). A file that was copied is copied to the same place when it is
  processed again with the same \<open>dest_dir\<close> and tag, at once or in any later world (as in
  a second run) in which the file is as it was: the call succeeds, reports the same
  directory, and writes the content to the path of the first copy. That path still holds
  a file, which is overwritten where it stands; the list of paths stays as it is, so
  nothing is added under another name, and when the copy still has the content of the
  source the file system does not change at all.
\<close>

theorem add_file_again_overwrites_in_place:
  assumes "add_file self w f = Inr (self1, w1)"
    and "grows w1 w2" and "stat w2 f = stat w f"
    and "dest_dir self2 = dest_dir self" and "tag self2 = tag self"
  shows "\<exists>q c d. read_file w f = Inr c \<and> last (out w1) = copied_line f d \<and>
    resolve w2 (if os_path_isdir w2 d then os_path_join d (os_path_basename f) else d) = Some q \<and>
    lookup w1 q = Some (File c) \<and>
    add_file self2 w2 f =
      Inr (self2\<lparr>copied_files := copied_files self2 + 1\<rparr>,
           w2\<lparr>fs := AList.update q (File c) (fs w2),
              out := out w2 @ [copied_line f d]\<rparr>) \<and>
    map fst (AList.update q (File c) (fs w2)) = map fst (fs w2) \<and>
    (lookup w2 q = Some (File c) \<longrightarrow> AList.update q (File c) (fs w2) = fs w2)"
proof -
  from assms(1) obtain tags a raw wa q pf where
    st: "stat w f = Some (File (Audio tags a))" and
    r: "raw_tag_value tags (tag self) = Inr raw" and
    m: "if os_path_exists w (os_path_join (dest_dir self) (tag_value raw)) then wa = w
     else os_mkdir w (os_path_join (dest_dir self) (tag_value raw)) = Inr wa" and
    pf: "resolve w f = Some pf" and la: "lookup wa pf = Some (File (Audio tags a))" and
    q: "resolve wa (if os_path_isdir wa (os_path_join (dest_dir self) (tag_value raw))
                 then os_path_join (os_path_join (dest_dir self) (tag_value raw))
                        (os_path_basename f)
                 else os_path_join (dest_dir self) (tag_value raw)) = Some q" and
    ls: "last (if os_path_isdir wa (os_path_join (dest_dir self) (tag_value raw))
           then os_path_join (os_path_join (dest_dir self) (tag_value raw))
                  (os_path_basename f)
           else os_path_join (dest_dir self) (tag_value raw)) \<noteq> CHR ''/''" and
    ne: "q \<noteq> pf" "q \<noteq> []" and nd: "\<not> is_Dir (lookup wa q)" and
    w1: "w1 = wa\<lparr>fs := AList.update q (File (Audio tags a)) (fs wa),
              out := out w @ [copied_line f (os_path_join (dest_dir self) (tag_value raw))]\<rparr>"
    by (rule add_file_effect)
  let ?d = "os_path_join (dest_dir self) (tag_value raw)"
  let ?c = "Audio tags a"
  let ?dst = "if os_path_isdir wa ?d then os_path_join ?d (os_path_basename f) else ?d"
  from dest_after_mkdir [OF m] have ga: "grows w wa" and ex: "os_path_exists wa ?d"
    and oa: "out wa = out w" by auto
  have l1: "\<And>x. lookup w1 x = (if x = q then Some (File ?c) else lookup wa x)"
    by (simp add: w1 lookup_def update_conv')
  have ga1: "grows wa w1"
  proof -
    have "grows wa (wa\<lparr>fs := AList.update q (File ?c) (fs wa)\<rparr>)"
    proof (cases "lookup wa q")
      case None
      then show ?thesis by (rule grows_new)
    next
      case (Some e)
      with nd have "is_File (lookup wa q)"
        by (cases e) (auto simp: is_File_def is_Dir_def)
      then show ?thesis by (rule grows_overwrite)
    qed
    moreover have "grows (wa\<lparr>fs := AList.update q (File ?c) (fs wa)\<rparr>) w1"
      unfolding w1 oa [symmetric] by (simp add: grows_def lookup_def)
    ultimately show ?thesis by (rule grows_trans)
  qed
  from ga1 assms(2) have ga2: "grows wa w2" by (rule grows_trans)
  from ga ga2 have g2: "grows w w2" by (rule grows_trans)
  \<comment> \<open>the source file\<close>
  from g2 pf have pf2: "resolve w2 f = Some pf" by (rule resolve_mono)
  from st assms(3) have st2: "stat w2 f = Some (File ?c)" by simp
  then have mp: "MP3 w2 f = Inr tags" by (auto simp: MP3_Inr)
  from st2 have rd: "read_file w2 f = Inr ?c" by (simp add: read_file_Inr)
  \<comment> \<open>the directory exists, so the second call makes none\<close>
  from ga2 ex have ex2: "os_path_exists w2 ?d" by (rule exists_mono)
  from ga2 ex have isd: "os_path_isdir w2 ?d = os_path_isdir wa ?d" by (rule isdir_stable)
  from ga2 q have q2: "resolve w2 ?dst = Some q" by (rule resolve_mono)
  have lq: "lookup w1 q = Some (File ?c)" by (simp add: l1)
  then have "is_File (lookup w1 q)" by (simp add: is_File_def)
  with assms(2) have fq: "is_File (lookup w2 q)" by (simp add: grows_def)
  then have ndq: "\<not> is_Dir (lookup w2 q)"
    by (auto simp: is_File_def is_Dir_def)
  have nsame: "\<not> samefile w2 f ?dst"
    using pf2 q2 ne(1) by (simp add: samefile_def)
  have wr: "write_file w2 ?dst ?c = Inr (w2\<lparr>fs := AList.update q (File ?c) (fs w2)\<rparr>)"
    using q2 ls ne(2) fq ndq by (simp add: write_file_def)
  have cp: "shutil_copy w2 f ?d = Inr (w2\<lparr>fs := AList.update q (File ?c) (fs w2)\<rparr>)"
    using nsame rd wr by (simp add: shutil_copy_def isd)
  have "add_file self2 w2 f =
      Inr (self2\<lparr>copied_files := copied_files self2 + 1\<rparr>,
           w2\<lparr>fs := AList.update q (File ?c) (fs w2), out := out w2 @ [copied_line f ?d]\<rparr>)"
    using mp r ex2 cp by (simp add: add_file_def assms(4,5))
  moreover have "last (out w1) = copied_line f ?d" by (simp add: w1)
  moreover from st have "read_file w f = Inr ?c" by (simp add: read_file_Inr)
  moreover have "map fst (AList.update q (File ?c) (fs w2)) = map fst (fs w2)"
  proof -
    from fq obtain e where "lookup w2 q = Some e" by (cases "lookup w2 q") (auto simp: is_File_def)
    then have "q \<in> set (map fst (fs w2))" by (rule lookup_key)
    then show ?thesis by (simp add: update_keys)
  qed
  moreover have "lookup w2 q = Some (File ?c) \<longrightarrow> AList.update q (File ?c) (fs w2) = fs w2"
    by (auto simp: lookup_def intro: update_same)
  moreover have "resolve w2 (if os_path_isdir w2 ?d then os_path_join ?d (os_path_basename f)
      else ?d) = Some q" using q2 by (simp add: isd)
  ultimately show ?thesis using lq by blast
qed

theorem add_file_again_overwrites_in_place_witness:
  "fs (snd (projr (add_file ex_organizer ex_world_done ''/home/music/a.mp3''))) =
     fs ex_world_done \<and>
   lookup ex_world_done [''home'', ''out'', ''Guns_N_Roses'', ''a.mp3''] =
     Some (File (Audio [(''artist'', [''Guns N Roses'']), (''album'', [''Lies''])] ''aaa''))"
proof -
  let ?f = "''/home/music/a.mp3''"
  let ?c = "Audio [(''artist'', [''Guns N Roses'']), (''album'', [''Lies''])] ''aaa''"
  let ?r = "projr (add_file ex_organizer ex_world_init ?f)"
  have 1: "add_file ex_organizer ex_world_init ?f = Inr (fst ?r, snd ?r)" by code_simp
  have 3: "grows (snd ?r) ex_world_done"
  proof (rule grows_by_keys)
    show "cwd ex_world_done = cwd (snd ?r)" by code_simp
    show "\<forall>p\<in>set (map fst (fs (snd ?r))).
           (is_Dir (lookup (snd ?r) p) \<longrightarrow> is_Dir (lookup ex_world_done p)) \<and>
           (is_File (lookup (snd ?r) p) \<longrightarrow> is_File (lookup ex_world_done p))" by code_simp
    show "take (length (fs (snd ?r))) (map fst (fs ex_world_done)) = map fst (fs (snd ?r))"
      by code_simp
    show "take (length (out (snd ?r))) (out ex_world_done) = out (snd ?r)" by code_simp
    show "take (length (err (snd ?r))) (err ex_world_done) = err (snd ?r)" by code_simp
  qed
  have 4: "stat ex_world_done ?f = stat ex_world_init ?f" by code_simp
  have 5: "read_file ex_world_init ?f = Inr ?c"
    "last (out (snd ?r)) = copied_line ?f ''out/Guns_N_Roses''"
    "resolve ex_world_done
       (if os_path_isdir ex_world_done ''out/Guns_N_Roses''
        then os_path_join ''out/Guns_N_Roses'' (os_path_basename ?f) else ''out/Guns_N_Roses'') =
     Some [''home'', ''out'', ''Guns_N_Roses'', ''a.mp3'']"
    "lookup ex_world_done [''home'', ''out'', ''Guns_N_Roses'', ''a.mp3''] = Some (File ?c)"
    by code_simp+
  from add_file_again_overwrites_in_place [OF 1 3 4 refl refl] obtain q c d where
    a: "read_file ex_world_init ?f = Inr c" "last (out (snd ?r)) = copied_line ?f d"
    "resolve ex_world_done
       (if os_path_isdir ex_world_done d then os_path_join d (os_path_basename ?f) else d) =
     Some q"
    "add_file ex_organizer ex_world_done ?f =
      Inr (ex_organizer\<lparr>copied_files := copied_files ex_organizer + 1\<rparr>,
           ex_world_done\<lparr>fs := AList.update q (File c) (fs ex_world_done),
              out := out ex_world_done @ [copied_line ?f d]\<rparr>)"
    "lookup ex_world_done q = Some (File c) \<longrightarrow>
       AList.update q (File c) (fs ex_world_done) = fs ex_world_done" by blast
  from a(1) 5(1) have c: "c = ?c" by simp
  from a(2) 5(2) have d: "d = ''out/Guns_N_Roses''" by (auto dest: copied_line_inj)
  from a(3) 5(3) have q: "q = [''home'', ''out'', ''Guns_N_Roses'', ''a.mp3'']"
    unfolding d by simp
  from a(5) 5(4) have "AList.update q (File c) (fs ex_world_done) = fs ex_world_done"
    unfolding c q by simp
  with a(4) 5(4) show ?thesis by simp
qed

text \<open>
  The claim as it is written fails for whole runs. In the first run the file of \<^verbatim>\<open>AC/DC\<close>
  is not copied, because the directory \<^verbatim>\<open>out/AC\<close> is made only afterwards, for the other
  file; in the second run, with the same options, it is copied to \<^verbatim>\<open>out/AC/DC\<close>.
\<close>

theorem second_run_differs_counterexample:
  "fst (the (main 3 ex_options ex_acdc_world)) = 0 \<and>
   lookup (snd (the (main 3 ex_options ex_acdc_world)))
     [''home'', ''out'', ''AC'', ''DC'', ''a.mp3''] = None \<and>
   fst (the (main 3 ex_options (snd (the (main 3 ex_options ex_acdc_world))))) = 0 \<and>
   lookup (snd (the (main 3 ex_options (snd (the (main 3 ex_options ex_acdc_world))))))
     [''home'', ''out'', ''AC'', ''DC'', ''a.mp3''] =
   Some (File (Audio [(''artist'', [''AC/DC''])] ''aaa''))"
  by code_simp

section \<open>The counters\<close>

lemma walk_callback_Cons:
  "walk_callback s d (e # es) = walk_callback (walk_callback s d [e]) d es"
  by (cases s) (auto simp: Let_def split: sum.splits)

lemma walk_callback_other:
  "\<not> is_mp3 (snd s) (entry_path (snd s) d e) \<Longrightarrow> walk_callback s d [e] = s"
  by (cases s) simp

lemma walk_callback_one:
  "is_mp3 (snd s) (entry_path (snd s) d e) \<Longrightarrow>
   copied_files (fst (walk_callback s d [e])) + copy_fails (fst (walk_callback s d [e])) =
   copied_files (fst s) + copy_fails (fst s) + 1"
  by (cases s) (auto simp: Let_def increment_failures_def split: sum.splits elim!: add_file_Inr)

lemma walk_callback_counts:
  "copied_files (fst (walk_callback s d es)) + copy_fails (fst (walk_callback s d es)) =
   copied_files (fst s) + copy_fails (fst s) + scanned_entries s d es"
proof (induction es arbitrary: s)
  case Nil
  then show ?case by (cases s) simp
next
  case (Cons e es)
  show ?case
    using Cons.IH [of "walk_callback s d [e]"] walk_callback_one [of s d e]
      walk_callback_other [of s d e]
    unfolding walk_callback_Cons [of s d e es] by auto
qed

lemma walk_counts:
  "os_path_walk n t s = Some s' \<Longrightarrow>
     copied_files (fst s') + copy_fails (fst s') =
     copied_files (fst s) + copy_fails (fst s) + scanned n t s"
  "walk_names n t names s = Some s' \<Longrightarrow>
     copied_files (fst s') + copy_fails (fst s') =
     copied_files (fst s) + copy_fails (fst s) + scanned_names n t names s"
proof (induction n t s and n t names s arbitrary: s' and s' rule: os_path_walk_walk_names.induct)
  case (1 t s)
  then show ?case by simp
next
  case (2 n t s)
  show ?case
  proof (cases "os_listdir (snd s) t")
    case (Inl a)
    with 2 show ?thesis by simp
  next
    case (Inr names)
    with "2.prems" have "walk_names n t names (walk_callback s t names) = Some s'" by simp
    from "2.IH" [OF Inr this] show ?thesis
      using walk_callback_counts [of s t names] by (simp add: Inr)
  qed
next
  case (3 n t s)
  then show ?case by simp
next
  case (4 n t name names s)
  show ?case
  proof (cases "os_path_isdir (snd s) (os_path_join t name)")
    case False
    with 4 show ?thesis by (simp add: Let_def)
  next
    case True
    with "4.prems" obtain s1 where s1: "os_path_walk n (os_path_join t name) s = Some s1"
      "walk_names n t names s1 = Some s'"
      by (auto simp: Let_def split: option.splits)
    from "4.IH"(1) [OF refl True s1(1)] "4.IH"(2) [OF refl True s1(1) s1(2)]
    show ?thesis using True s1 by (simp add: Let_def)
  qed
qed

lemma lower_char_dot: "lower_char x = CHR ''.'' \<longleftrightarrow> x = CHR ''.''"
  by (auto simp: lower_char_def)
lemma lower_char_3: "lower_char x = CHR ''3'' \<longleftrightarrow> x = CHR ''3''"
  by (auto simp: lower_char_def)
lemma lower_char_m: "lower_char x = CHR ''m'' \<longleftrightarrow> x = CHR ''m'' \<or> x = CHR ''M''"
  by (auto simp: lower_char_def)
lemma lower_char_p: "lower_char x = CHR ''p'' \<longleftrightarrow> x = CHR ''p'' \<or> x = CHR ''P''"
  by (auto simp: lower_char_def)

lemma lower_mp3:
  "lower e = ''.mp3'' \<longleftrightarrow> e \<in> {''.mp3'', ''.mP3'', ''.Mp3'', ''.MP3''}"
  by (auto simp: lower_def lower_char_dot lower_char_3 lower_char_m lower_char_p)


lemma is_mp3_extension:
  "is_mp3 w p \<longleftrightarrow>
   os_path_isfile w p \<and> snd (os_path_splitext p) \<in> {''.mp3'', ''.mP3'', ''.Mp3'', ''.MP3''}"
  unfolding is_mp3_def Let_def lower_mp3 by auto

section \<open>The traversal\<close>

lemma reported_then_grows:
  assumes "reported f a b" "grows b c"
  shows "reported f a c"
proof -
  from assms(2) obtain xs ys where "out c = out b @ xs" "err c = err b @ ys"
    by (auto simp: grows_def)
  then have "set (drop (length (out a)) (out b)) \<subseteq> set (drop (length (out a)) (out c))"
    "set (drop (length (err a)) (err b)) \<subseteq> set (drop (length (err a)) (err c))"
    by auto
  with assms(1) show ?thesis unfolding reported_def by blast
qed

lemma grows_then_reported:
  assumes "grows a b" "reported f b c"
  shows "reported f a c"
proof -
  from assms(1) obtain xs ys where "out b = out a @ xs" "err b = err a @ ys"
    by (auto simp: grows_def)
  then have "length (out a) \<le> length (out b)" "length (err a) \<le> length (err b)" by auto
  then have "set (drop (length (out b)) (out c)) \<subseteq> set (drop (length (out a)) (out c))"
    "set (drop (length (err b)) (err c)) \<subseteq> set (drop (length (err a)) (err c))"
    by (simp_all add: set_drop_subset_set_drop)
  with assms(2) show ?thesis unfolding reported_def by blast
qed

lemma add_file_out:
  "add_file self w f = Inr (self', w') \<Longrightarrow> \<exists>d. out w' = out w @ [copied_line f d]"
proof (erule add_file_Inr)
  fix tags raw w1 w2
  assume m: "if os_path_exists w (os_path_join (dest_dir self) (tag_value raw)) then w1 = w
     else os_mkdir w (os_path_join (dest_dir self) (tag_value raw)) = Inr w1"
    and c: "shutil_copy w1 f (os_path_join (dest_dir self) (tag_value raw)) = Inr w2"
    and w': "w' = w2\<lparr>out := out w2 @ [copied_line f (os_path_join (dest_dir self) (tag_value raw))]\<rparr>"
  from m have "out w1 = out w" by (auto split: if_splits dest: os_mkdir_streams)
  with c have "out w2 = out w" by (auto dest: shutil_copy_streams)
  then show ?thesis by (auto simp: w')
qed

lemma add_file_Inl_err: "add_file self w f = Inl (e, w') \<Longrightarrow> err w' = err w"
  by (drule add_file_Inl) (auto dest: os_mkdir_streams)

text \<open>One entry that passes the test is reported by the callback.\<close>

lemma walk_callback_one_reported:
  assumes "is_mp3 w (entry_path w d e)" "walk_callback (self, w) d [e] = (self', w')"
  shows "reported (entry_path w d e) w w'"
proof (cases "add_file self w (entry_path w d e)")
  case (Inl a)
  obtain x w1 where a: "a = (x, w1)" by (cases a)
  from Inl a have "err w1 = err w" by (auto dest: add_file_Inl_err)
  with assms Inl a have "err w' = err w @ [cannot_copy_line (entry_path w d e) x]"
    by (auto simp: Let_def)
  then show ?thesis unfolding reported_def by auto
next
  case (Inr b)
  obtain self1 w1 where b: "b = (self1, w1)" by (cases b)
  from Inr b obtain dd where "out w1 = out w @ [copied_line (entry_path w d e) dd]"
    by (auto dest: add_file_out)
  with assms Inr b have "out w' = out w @ [copied_line (entry_path w d e) dd]"
    by (auto simp: Let_def)
  then show ?thesis unfolding reported_def by auto
qed

lemma walk_callback_grows_pair:
  "grows (snd s) (snd (walk_callback s d es))"
  by (cases s, cases "walk_callback s d es") (auto dest: walk_callback_grows)

lemma walk_callback_reported:
  assumes "grows w0 (snd s)" "e \<in> set es" "is_mp3 w0 (entry_path w0 d e)"
  shows "reported (entry_path w0 d e) (snd s) (snd (walk_callback s d es))"
  using assms
proof (induction es arbitrary: s)
  case Nil
  then show ?case by simp
next
  case (Cons x es)
  let ?s1 = "walk_callback s d [x]"
  have c: "walk_callback s d (x # es) = walk_callback ?s1 d es" by (rule walk_callback_Cons)
  have g1: "grows (snd s) (snd ?s1)" by (rule walk_callback_grows_pair)
  have g2: "grows (snd ?s1) (snd (walk_callback ?s1 d es))" by (rule walk_callback_grows_pair)
  show ?case
  proof (cases "x = e")
    case True
    have p: "entry_path (snd s) d e = entry_path w0 d e"
      using Cons.prems(1) by (rule entry_path_grows)
    have "is_mp3 (snd s) (entry_path (snd s) d e)"
      using Cons.prems(1,3) by (simp add: p is_mp3_mono)
    then have "reported (entry_path (snd s) d e) (snd s) (snd ?s1)"
      by (cases s, cases ?s1) (auto simp: True intro: walk_callback_one_reported)
    then have "reported (entry_path w0 d e) (snd s) (snd ?s1)" by (simp add: p)
    then show ?thesis unfolding c using g2 by (rule reported_then_grows)
  next
    case False
    with Cons.prems(2) have "e \<in> set es" by simp
    moreover from Cons.prems(1) g1 have "grows w0 (snd ?s1)" by (rule grows_trans)
    ultimately have "reported (entry_path w0 d e) (snd ?s1) (snd (walk_callback ?s1 d es))"
      using Cons.prems(3) by (intro Cons.IH)
    with g1 show ?thesis unfolding c by (rule grows_then_reported)
  qed
qed

text \<open>The walk over the names of a directory walks into each name that is a directory.\<close>

lemma walk_names_enters:
  assumes "walk_names n t names s = Some s'" "m \<in> set names"
    "grows w0 (snd s)" "os_path_isdir w0 (os_path_join t m)"
  shows "\<exists>s1 s2. grows (snd s) (snd s1) \<and> os_path_walk n (os_path_join t m) s1 = Some s2 \<and>
    grows (snd s2) (snd s')"
  using assms
proof (induction names arbitrary: s)
  case Nil
  then show ?case by simp
next
  case (Cons x names)
  show ?case
  proof (cases "os_path_isdir (snd s) (os_path_join t x)")
    case True
    with Cons.prems(1) obtain sx where sx: "os_path_walk n (os_path_join t x) s = Some sx"
      "walk_names n t names sx = Some s'"
      by (auto simp: Let_def split: option.splits)
    show ?thesis
    proof (cases "x = m")
      case True
      from sx(2) have "grows (snd sx) (snd s')" by (rule walk_grows(2))
      with sx(1) show ?thesis unfolding True [symmetric] by (intro exI [of _ s] exI [of _ sx]) simp
    next
      case False
      with Cons.prems(2) have in_names: "m \<in> set names" by simp
      from sx(1) have g: "grows (snd s) (snd sx)" by (rule walk_grows(1))
      with Cons.prems(3) have "grows w0 (snd sx)" by (rule grows_trans)
      from Cons.IH [OF sx(2) in_names this Cons.prems(4)] obtain s1 s2 where
        "grows (snd sx) (snd s1)" "os_path_walk n (os_path_join t m) s1 = Some s2"
        "grows (snd s2) (snd s')" by blast
      with g show ?thesis by (blast intro: grows_trans)
    qed
  next
    case False
    have "x \<noteq> m"
    proof
      assume "x = m"
      with Cons.prems(3,4) have "os_path_isdir (snd s) (os_path_join t x)"
        by (auto dest: isdir_mono)
      with False show False by simp
    qed
    with Cons.prems(2) have in_names: "m \<in> set names" by simp
    from False Cons.prems(1) have "walk_names n t names s = Some s'" by (simp add: Let_def)
    from Cons.IH [OF this in_names Cons.prems(3,4)] show ?thesis .
  qed
qed

lemma walk_reports:
  assumes "os_path_walk n t s = Some s'" "grows w0 (snd s)" "subdir_chain w0 t ns"
    "os_listdir w0 (foldl os_path_join t ns) = Inr names" "e \<in> set names"
    "is_mp3 w0 (entry_path w0 (foldl os_path_join t ns) e)"
  shows "reported (entry_path w0 (foldl os_path_join t ns) e) (snd s) (snd s')"
  using assms
proof (induction ns arbitrary: n t s s')
  case Nil
  from Nil.prems(1) obtain k where n: "n = Suc k" by (cases n) auto
  from Nil.prems(4) have l0: "os_listdir w0 t = Inr names" by simp
  from listdir_mono [OF Nil.prems(2) l0] obtain more where
    l: "os_listdir (snd s) t = Inr (names @ more)" by blast
  let ?cb = "walk_callback s t (names @ more)"
  from Nil.prems(1) have wn: "walk_names k t (names @ more) ?cb = Some s'" by (simp add: n l)
  have "reported (entry_path w0 t e) (snd s) (snd ?cb)"
    using Nil.prems(2,5,6) by (intro walk_callback_reported) auto
  moreover from wn have "grows (snd ?cb) (snd s')" by (rule walk_grows(2))
  ultimately show ?case by (simp add: reported_then_grows)
next
  case (Cons m ns)
  from Cons.prems(1) obtain k where n: "n = Suc k" by (cases n) auto
  from Cons.prems(3) obtain names0 where l0: "os_listdir w0 t = Inr names0" "m \<in> set names0"
    and isd: "os_path_isdir w0 (os_path_join t m)"
    and ch: "subdir_chain w0 (os_path_join t m) ns"
    by (auto split: sum.splits)
  from listdir_mono [OF Cons.prems(2) l0(1)] obtain more where
    l: "os_listdir (snd s) t = Inr (names0 @ more)" by blast
  let ?cb = "walk_callback s t (names0 @ more)"
  from Cons.prems(1) have wn: "walk_names k t (names0 @ more) ?cb = Some s'" by (simp add: n l)
  have g1: "grows (snd s) (snd ?cb)" by (rule walk_callback_grows_pair)
  with Cons.prems(2) have g0: "grows w0 (snd ?cb)" by (rule grows_trans)
  from walk_names_enters [OF wn _ g0 isd] l0(2) obtain s1 s2 where
    s12: "grows (snd ?cb) (snd s1)" "os_path_walk k (os_path_join t m) s1 = Some s2"
    "grows (snd s2) (snd s')" by auto
  from g0 s12(1) have "grows w0 (snd s1)" by (rule grows_trans)
  from Cons.IH [OF s12(2) this ch] Cons.prems(4,5,6)
  have "reported (entry_path w0 (foldl os_path_join t (m # ns)) e) (snd s1) (snd s2)" by simp
  then have "reported (entry_path w0 (foldl os_path_join t (m # ns)) e) (snd s1) (snd s')"
    using s12(3) by (rule reported_then_grows)
  moreover from g1 s12(1) have "grows (snd s) (snd s1)" by (rule grows_trans)
  ultimately show ?case by (rule grows_then_reported [rotated])
qed

section \<open>Termination of the walk\<close>

lemma split_on_no_sep: "x \<in> set (split_on c s) \<Longrightarrow> c \<notin> set x"
proof (induction s arbitrary: x)
  case Nil
  then show ?case by simp
next
  case (Cons a s)
  obtain w ws where ws: "split_on c s = w # ws" by (cases "split_on c s") auto
  from Cons.IH [of w] ws have w: "c \<notin> set w" by simp
  have rest: "c \<notin> set y" if "y \<in> set ws" for y using Cons.IH [of y] ws that by simp
  show ?case
  proof (cases "a = c")
    case True
    with Cons.prems ws have "x = [] \<or> x = w \<or> x \<in> set ws" by simp
    with w rest show ?thesis by auto
  next
    case False
    with Cons.prems ws have "x = a # w \<or> x \<in> set ws" by simp
    with w rest False show ?thesis by auto
  qed
qed

lemma components_valid: "x \<in> set (components s) \<Longrightarrow> x \<noteq> [] \<and> CHR ''/'' \<notin> set x"
  by (auto simp: components_def dest: split_on_no_sep)

lemma resolve_from_fresh:
  assumes closed: "\<And>q. is_Dir (f q) \<Longrightarrow> is_Dir (f (butlast q))"
  shows "resolve_from f cur cs = Some p \<Longrightarrow> \<forall>c\<in>set cs. c \<noteq> [] \<and> CHR ''/'' \<notin> set c \<Longrightarrow>
    fresh_or_dir f cur \<Longrightarrow> fresh_or_dir f p"
proof (induction cs arbitrary: cur)
  case Nil
  then show ?case by simp
next
  case (Cons c cs)
  from Cons.prems(1) have d: "is_Dir (f cur)" by (auto split: if_splits)
  show ?case
  proof (cases "c = ''.''")
    case True
    with Cons d show ?thesis by simp
  next
    case False
    show ?thesis
    proof (cases "c = ''..''")
      case True
      with Cons.prems d have "resolve_from f (butlast cur) cs = Some p" by simp
      moreover have "fresh_or_dir f (butlast cur)" using closed [OF d] by (simp add: fresh_or_dir_def)
      ultimately show ?thesis using Cons.prems(2) by (intro Cons.IH) auto
    next
      case dd: False
      with False Cons.prems d have "resolve_from f (cur @ [c]) cs = Some p" by simp
      moreover have "fresh_or_dir f (cur @ [c])"
        using d False dd Cons.prems(2) by (simp add: fresh_or_dir_def valid_name_def)
      ultimately show ?thesis using Cons.prems(2) by (intro Cons.IH) auto
    qed
  qed
qed

lemma wf_closed: "wf_world w \<Longrightarrow> is_Dir (lookup w q) \<Longrightarrow> is_Dir (lookup w (butlast q))"
proof (cases "q = []")
  case True
  then show "is_Dir (lookup w q) \<Longrightarrow> is_Dir (lookup w (butlast q))" by simp
next
  case False
  assume "wf_world w" "is_Dir (lookup w q)"
  moreover from this(2) have "q \<in> set (map fst (fs w))" by (auto simp: is_Dir_def dest: lookup_key)
  ultimately show "is_Dir (lookup w (butlast q))" using False unfolding wf_world_def by blast
qed

lemma resolve_new:
  assumes "wf_world w" "resolve w s = Some p" "lookup w p = None"
  shows "p \<noteq> [] \<and> valid_name (last p) \<and> is_Dir (lookup w (butlast p))"
proof -
  let ?start = "if os_path_isabs s then [] else cwd w"
  from assms(2) have r: "resolve_from (lookup w) ?start (components s) = Some p"
    by (auto simp: resolve_def split: if_splits)
  have "fresh_or_dir (lookup w) ?start"
    using assms(1) by (simp add: fresh_or_dir_def wf_world_def)
  moreover have "\<forall>c\<in>set (components s). c \<noteq> [] \<and> CHR ''/'' \<notin> set c"
    using components_valid by blast
  ultimately have "fresh_or_dir (lookup w) p"
    using resolve_from_fresh [of "lookup w" ?start "components s" p, OF wf_closed [OF assms(1)] r]
    by blast
  with assms(3) show ?thesis by (simp add: fresh_or_dir_def is_Dir_def)
qed

lemma resolve_from_length:
  "resolve_from f cur cs = Some p \<Longrightarrow> length p \<le> length cur + length cs"
proof (induction cs arbitrary: cur)
  case Nil
  then show ?case by simp
next
  case (Cons c cs)
  from Cons.prems have d: "is_Dir (f cur)" by (auto split: if_splits)
  consider "c = ''.''" | "c = ''..''" | "c \<noteq> ''.''" "c \<noteq> ''..''" by blast
  then show ?case
  proof cases
    case 1
    with Cons.prems d have "resolve_from f cur cs = Some p" by simp
    from Cons.IH [OF this] show ?thesis by simp
  next
    case 2
    with Cons.prems d have "resolve_from f (butlast cur) cs = Some p" by simp
    from Cons.IH [OF this] show ?thesis by simp
  next
    case 3
    with Cons.prems d have "resolve_from f (cur @ [c]) cs = Some p" by simp
    from Cons.IH [OF this] show ?thesis by simp
  qed
qed

lemma resolve_length:
  "resolve w s = Some p \<Longrightarrow> length p \<le> length (cwd w) + length (components s)"
proof -
  assume "resolve w s = Some p"
  then have "resolve_from (lookup w) (if os_path_isabs s then [] else cwd w) (components s) = Some p"
    by (simp add: resolve_def split: if_splits)
  from resolve_from_length [OF this] show ?thesis by (simp split: if_splits)
qed

lemma keys_update:
  "fst ` set (AList.update p e al) = insert p (fst ` set al)"
  using arg_cong [OF update_keys [of p e al], of set] by (auto split: if_splits)

lemma wf_update:
  assumes "wf_world w"
    and "lookup w p = None \<and> p \<noteq> [] \<and> valid_name (last p) \<and> is_Dir (lookup w (butlast p)) \<or>
         is_File (lookup w p) \<and> e \<noteq> Dir"
  shows "wf_world (w\<lparr>fs := AList.update p e (fs w)\<rparr>)"
proof -
  let ?w = "w\<lparr>fs := AList.update p e (fs w)\<rparr>"
  have notdir: "\<not> is_Dir (lookup w p)"
    using assms(2) by (auto simp: is_Dir_def is_File_def)
  have keep: "is_Dir (lookup ?w q)" if "is_Dir (lookup w q)" for q
    using that notdir by auto
  have root: "is_Dir (lookup ?w [])" and cw: "is_Dir (lookup ?w (cwd ?w))"
    using assms(1) keep by (simp_all add: wf_world_def del: lookup_update)
  have "is_Dir (lookup ?w (butlast k)) \<and> valid_name (last k)"
    if k: "k \<in> set (map fst (fs ?w))" "k \<noteq> []" for k
  proof (cases "k \<in> set (map fst (fs w))")
    case True
    with assms(1) k(2) have "is_Dir (lookup w (butlast k))" "valid_name (last k)"
      unfolding wf_world_def by blast+
    with keep show ?thesis by blast
  next
    case False
    with k(1) have kp: "k = p" by (simp add: keys_update)
    have "lookup w p = None"
    proof (rule ccontr)
      assume "lookup w p \<noteq> None"
      then have "p \<in> set (map fst (fs w))" by (auto dest: lookup_key)
      with False kp show False by simp
    qed
    with assms(2) have "valid_name (last p)" "is_Dir (lookup w (butlast p))"
      by (auto simp: is_File_def)
    with keep kp show ?thesis by blast
  qed
  with root cw show ?thesis unfolding wf_world_def by blast
qed

lemma wf_streams [simp]:
  "wf_world (w\<lparr>out := x\<rparr>) = wf_world w" "wf_world (w\<lparr>err := y\<rparr>) = wf_world w"
  by (simp_all add: wf_world_def lookup_def)

lemma bounded_streams [simp]:
  "bounded L dst t (w\<lparr>out := x\<rparr>) = bounded L dst t w"
  "bounded L dst t (w\<lparr>err := y\<rparr>) = bounded L dst t w"
  by (simp_all add: bounded_def lookup_def)

lemma bounded_mkdir:
  assumes "bounded L dst t w" "os_mkdir w s = Inr w'"
    "length (cwd w) + length (components s) \<le> L"
  shows "bounded L dst t w'"
proof -
  from assms(2) obtain p where p: "resolve w s = Some p" "lookup w p = None"
    "w' = w\<lparr>fs := AList.update p Dir (fs w)\<rparr>" by (rule os_mkdir_Inr)
  from assms(1) have wf: "wf_world w" by (simp add: bounded_def)
  from resolve_new [OF wf p(1,2)] p(2) have "wf_world w'"
    unfolding p(3) by (intro wf_update [OF wf]) simp
  moreover from resolve_length [OF p(1)] assms(3) have "length p \<le> L" by simp
  ultimately show ?thesis using assms(1)
    by (auto simp: bounded_def p(3) is_Dir_def)
qed

lemma bounded_write:
  assumes "bounded L dst t w" "write_file w s c = Inr w'" "target_depth dst t (cwd w) c \<le> L"
  shows "bounded L dst t w'"
proof -
  from assms(2) obtain p where p: "resolve w s = Some p" "\<not> is_Dir (lookup w p)"
    "is_File (lookup w p) \<or> is_Dir (lookup w (butlast p))"
    "w' = w\<lparr>fs := AList.update p (File c) (fs w)\<rparr>" by (rule write_file_Inr)
  from assms(1) have wf: "wf_world w" by (simp add: bounded_def)
  have "wf_world w'"
  proof (cases "lookup w p")
    case None
    from resolve_new [OF wf p(1) None] None show ?thesis
      unfolding p(4) by (intro wf_update [OF wf]) simp
  next
    case (Some e)
    with p(2) have "is_File (lookup w p)" by (cases e) (auto simp: is_File_def is_Dir_def)
    then show ?thesis unfolding p(4) by (intro wf_update [OF wf]) simp
  qed
  then show ?thesis using assms(1,3)
    by (auto simp: bounded_def p(4) is_Dir_def)
qed

lemma stat_File_lookup: "stat w f = Some (File c) \<Longrightarrow> \<exists>p. lookup w p = Some (File c)"
  by (auto simp: stat_Some)

lemma add_file_Inl_world:
  assumes "add_file self w f = Inl (e, w1)"
  shows "w1 = w \<or>
    (\<exists>tags raw. MP3 w f = Inr tags \<and> raw_tag_value tags (tag self) = Inr raw \<and>
       os_mkdir w (os_path_join (dest_dir self) (tag_value raw)) = Inr w1)"
  using assms unfolding add_file_def Let_def
  by (auto split: sum.splits if_splits)

lemma target_depth_Audio:
  "raw_tag_value tags t = Inr raw \<Longrightarrow>
   target_depth dst t cw (Audio tags a) =
     length cw + length (components (os_path_join dst (tag_value raw)))"
  by (simp add: target_depth_def)

lemma bounded_bucket_mkdir:
  assumes "bounded L (dest_dir self) (tag self) w" "MP3 w f = Inr tags"
    "raw_tag_value tags (tag self) = Inr raw"
    "os_mkdir w (os_path_join (dest_dir self) (tag_value raw)) = Inr w1"
  shows "bounded L (dest_dir self) (tag self) w1"
proof -
  from assms(2) obtain a p where "lookup w p = Some (File (Audio tags a))"
    by (auto simp: MP3_Inr dest: stat_File_lookup)
  with assms(1) have "target_depth (dest_dir self) (tag self) (cwd w) (Audio tags a) \<le> L"
    unfolding bounded_def by blast
  then have "length (cwd w) + length (components (os_path_join (dest_dir self) (tag_value raw))) \<le> L"
    by (simp add: target_depth_Audio [OF assms(3)])
  with assms(1,4) show ?thesis by (rule bounded_mkdir)
qed

lemma add_file_bounded_Inl:
  assumes "bounded L (dest_dir self) (tag self) w" "add_file self w f = Inl (e, w1)"
  shows "bounded L (dest_dir self) (tag self) w1"
  using add_file_Inl_world [OF assms(2)] assms(1) by (auto intro: bounded_bucket_mkdir)

lemma add_file_bounded_Inr:
  assumes "bounded L (dest_dir self) (tag self) w" "add_file self w f = Inr (self', w')"
  shows "bounded L (dest_dir self) (tag self) w' \<and> dest_dir self' = dest_dir self \<and>
    tag self' = tag self"
proof -
  from assms(2) obtain tags raw w1 w2 where
    t: "MP3 w f = Inr tags" and r: "raw_tag_value tags (tag self) = Inr raw" and
    m: "if os_path_exists w (os_path_join (dest_dir self) (tag_value raw)) then w1 = w
        else os_mkdir w (os_path_join (dest_dir self) (tag_value raw)) = Inr w1" and
    c: "shutil_copy w1 f (os_path_join (dest_dir self) (tag_value raw)) = Inr w2" and
    s': "self' = self\<lparr>copied_files := copied_files self + 1\<rparr>" and
    w': "w' = w2\<lparr>out := out w2 @ [copied_line f (os_path_join (dest_dir self) (tag_value raw))]\<rparr>"
    by (rule add_file_Inr)
  have b1: "bounded L (dest_dir self) (tag self) w1"
    using m assms(1) t r by (auto split: if_splits intro: bounded_bucket_mkdir)
  from dest_after_mkdir [OF m] have cw: "cwd w1 = cwd w" by (simp add: grows_def)
  from c obtain c' dst' where st: "stat w1 f = Some (File c')"
    and wr: "write_file w1 dst' c' = Inr w2" by (rule shutil_copy_Inr)
  from st obtain p where "lookup w1 p = Some (File c')" by (auto dest: stat_File_lookup)
  with b1 have "target_depth (dest_dir self) (tag self) (cwd w1) c' \<le> L"
    unfolding bounded_def by blast
  with b1 wr have "bounded L (dest_dir self) (tag self) w2" by (rule bounded_write)
  then show ?thesis by (simp add: w' s')
qed

lemma walk_callback_bounded:
  assumes "bounded L (dest_dir (fst s)) (tag (fst s)) (snd s)"
  shows "bounded L (dest_dir (fst s)) (tag (fst s)) (snd (walk_callback s d es)) \<and>
    dest_dir (fst (walk_callback s d es)) = dest_dir (fst s) \<and>
    tag (fst (walk_callback s d es)) = tag (fst s)"
  using assms
proof (induction es arbitrary: s)
  case Nil
  then show ?case by (cases s) simp
next
  case (Cons x es)
  obtain self w where s: "s = (self, w)" by (cases s)
  let ?p = "entry_path w d x"
  have one: "bounded L (dest_dir self) (tag self) (snd (walk_callback s d [x])) \<and>
    dest_dir (fst (walk_callback s d [x])) = dest_dir self \<and>
    tag (fst (walk_callback s d [x])) = tag self"
  proof (cases "is_mp3 w ?p")
    case False
    with Cons.prems show ?thesis by (simp add: s)
  next
    case True
    show ?thesis
    proof (cases "add_file self w ?p")
      case (Inl a)
      obtain e w1 where a: "a = (e, w1)" by (cases a)
      from Cons.prems Inl have "bounded L (dest_dir self) (tag self) w1"
        unfolding s a by (auto intro: add_file_bounded_Inl)
      with True Inl show ?thesis by (simp add: s a Let_def increment_failures_def)
    next
      case (Inr b)
      obtain self1 w1 where b: "b = (self1, w1)" by (cases b)
      from Cons.prems Inr have "bounded L (dest_dir self) (tag self) w1 \<and>
        dest_dir self1 = dest_dir self \<and> tag self1 = tag self"
        unfolding s b by (auto dest: add_file_bounded_Inr)
      with True Inr show ?thesis by (simp add: s b Let_def)
    qed
  qed
  from Cons.IH [of "walk_callback s d [x]"] one show ?case
    unfolding walk_callback_Cons [of s d x es] by (simp add: s)
qed

lemma children_valid:
  assumes "wf_world w" "m \<in> set (children w p)"
  shows "valid_name m"
proof -
  from assms(2) obtain q where "q \<in> set (map fst (fs w))" "q \<noteq> []" "m = last q"
    by (auto simp: children_def)
  with assms(1) show ?thesis unfolding wf_world_def by blast
qed

lemma listdir_Inr:
  assumes "os_listdir w t = Inr names"
  obtains p where "resolve w t = Some p" "is_Dir (lookup w p)" "names = children w p" "t \<noteq> []"
  using assms
  by (auto simp: os_listdir_def resolve_def is_Dir_def split: option.splits entry.splits if_splits)

lemma isdir_resolve:
  assumes "os_path_isdir w s"
  obtains q where "resolve w s = Some q" "is_Dir (lookup w q)"
  using assms by (auto simp: os_path_isdir_def is_Dir_def stat_Some)

lemma walk_total:
  "bounded L (dest_dir (fst s)) (tag (fst s)) (snd s) \<Longrightarrow> 0 < n \<Longrightarrow>
   \<forall>p. resolve (snd s) t = Some p \<and> is_Dir (lookup (snd s) p) \<longrightarrow> L < n + length p \<Longrightarrow>
   \<exists>s'. os_path_walk n t s = Some s' \<and>
     bounded L (dest_dir (fst s)) (tag (fst s)) (snd s') \<and> same_config s s'"
  "bounded L (dest_dir (fst s)) (tag (fst s)) (snd s) \<Longrightarrow> t \<noteq> [] \<Longrightarrow>
   \<exists>p. resolve (snd s) t = Some p \<and> is_Dir (lookup (snd s) p) \<and> L \<le> n + length p \<Longrightarrow>
   \<forall>m\<in>set names. valid_name m \<Longrightarrow>
   \<exists>s'. walk_names n t names s = Some s' \<and>
     bounded L (dest_dir (fst s)) (tag (fst s)) (snd s') \<and> same_config s s'"
proof (induction n t s and n t names s rule: os_path_walk_walk_names.induct)
  case (1 t s)
  then show ?case by simp
next
  case (2 n t s)
  show ?case
  proof (cases "os_listdir (snd s) t")
    case (Inl a)
    with "2.prems"(1) show ?thesis by (simp add: same_config_def)
  next
    case (Inr names)
    then obtain p where p: "resolve (snd s) t = Some p" "is_Dir (lookup (snd s) p)"
      "names = children (snd s) p" "t \<noteq> []" by (rule listdir_Inr)
    let ?cb = "walk_callback s t names"
    from "2.prems"(1) have wf: "wf_world (snd s)" by (simp add: bounded_def)
    have v: "\<forall>m\<in>set names. valid_name m" using children_valid [OF wf] p(3) by blast
    from walk_callback_bounded [OF "2.prems"(1), of t names]
    have b: "bounded L (dest_dir (fst ?cb)) (tag (fst ?cb)) (snd ?cb)"
      and c: "same_config s ?cb" by (simp_all add: same_config_def)
    have g: "grows (snd s) (snd ?cb)" by (rule walk_callback_grows_pair)
    from g p(1) have "resolve (snd ?cb) t = Some p" by (rule resolve_mono)
    moreover from g p(2) have "is_Dir (lookup (snd ?cb) p)" by (simp add: grows_def)
    moreover from "2.prems"(3) p(1,2) have "L \<le> n + length p" by fastforce
    ultimately have "\<exists>p. resolve (snd ?cb) t = Some p \<and> is_Dir (lookup (snd ?cb) p) \<and>
      L \<le> n + length p" by blast
    from "2.IH" [OF Inr b p(4) this v] c show ?thesis
      by (auto simp: Inr same_config_def)
  qed
next
  case (3 n t s)
  then show ?case by (simp add: same_config_def)
next
  case (4 n t name names s)
  from "4.prems"(3) obtain p where p: "resolve (snd s) t = Some p" "is_Dir (lookup (snd s) p)"
    "L \<le> n + length p" by blast
  from "4.prems"(4) have vn: "valid_name name" and vs: "\<forall>m\<in>set names. valid_name m" by simp_all
  let ?name = "os_path_join t name"
  show ?case
  proof (cases "os_path_isdir (snd s) ?name")
    case False
    from "4.IH"(3) [OF refl False "4.prems"(1,2,3) vs] False show ?thesis
      by (simp add: Let_def)
  next
    case True
    then obtain q where q: "resolve (snd s) ?name = Some q" "is_Dir (lookup (snd s) q)"
      by (rule isdir_resolve)
    from q(1) p(1,2) have qp: "q = p @ [name]"
      by (simp add: resolve_join [OF vn "4.prems"(2)])
    from "4.prems"(1) q(2) have "length q \<le> L" unfolding bounded_def by blast
    with qp p(3) have n: "0 < n" by simp
    have "\<forall>r. resolve (snd s) ?name = Some r \<and> is_Dir (lookup (snd s) r) \<longrightarrow> L < n + length r"
      using q(1) qp p(3) by auto
    from "4.IH"(1) [OF refl True "4.prems"(1) n this] obtain s1 where
      s1: "os_path_walk n ?name s = Some s1"
      "bounded L (dest_dir (fst s)) (tag (fst s)) (snd s1)" "same_config s s1" by blast
    from s1(1) have g: "grows (snd s) (snd s1)" by (rule walk_grows(1))
    from g p(1) have "resolve (snd s1) t = Some p" by (rule resolve_mono)
    moreover from g p(2) have "is_Dir (lookup (snd s1) p)" by (simp add: grows_def)
    ultimately have e: "\<exists>p. resolve (snd s1) t = Some p \<and> is_Dir (lookup (snd s1) p) \<and>
      L \<le> n + length p" using p(3) by blast
    from s1(2,3) have b1: "bounded L (dest_dir (fst s1)) (tag (fst s1)) (snd s1)"
      by (simp add: same_config_def)
    from "4.IH"(2) [OF refl True s1(1) b1 "4.prems"(2) e vs] s1(3) True s1(1)
    show ?thesis by (auto simp: Let_def same_config_def)
  qed
qed

lemma foldr_max_ge: "x \<in> set xs \<Longrightarrow> x \<le> foldr max xs (0::nat)"
  by (induction xs) auto

lemma lookup_in_fs: "lookup w p = Some e \<Longrightarrow> (p, e) \<in> set (fs w)"
  unfolding lookup_def by (rule map_of_SomeD)

lemma bounded_initial:
  assumes "wf_world w"
  shows "bounded (depth_bound self w) (dest_dir self) (tag self) w"
proof -
  have "entry_depth (dest_dir self) (tag self) (cwd w) (p, e) \<le> depth_bound self w"
    if "lookup w p = Some e" for p e
    using lookup_in_fs [OF that] unfolding depth_bound_def
    by (intro foldr_max_ge) (auto intro: rev_image_eqI)
  from this [of _ Dir] this [of _ "File _"] assms show ?thesis
    by (auto simp: bounded_def entry_depth_def is_Dir_def)
qed

lemma run_total:
  assumes "wf_world w" "depth_bound self w < n"
  shows "\<exists>self' w'. run n (self, w) = Some (self', w')"
proof -
  have "\<exists>s'. os_path_walk n (source_dir self) (self, w) = Some s' \<and>
     bounded (depth_bound self w) (dest_dir (fst (self, w))) (tag (fst (self, w))) (snd s') \<and>
     same_config (self, w) s'"
    using bounded_initial [OF assms(1), of self] assms(2)
    by (intro walk_total(1)) auto
  then show ?thesis by (auto simp: run_def)
qed

section \<open>Runs\<close>

text \<open>
  C2. On a well-formed world a run returns, for every bound of the walk above the depth
  bound: nothing is raised past \<^verbatim>\<open>run\<close>, whatever the files are. An error of \<^verbatim>\<open>_add_file\<close>
  on an entry is caught in the callback: the failure counter grows by exactly one, the
  counter of copies stays, the warning is written, and the callback goes on with the
  entries after it.
\<close>

theorem run_never_raises:
  assumes "wf_world w" and "depth_bound self w < n"
  shows "(\<exists>self' w'. run n (self, w) = Some (self', w')) \<and>
    (\<forall>s d e es x w1.
       is_mp3 (snd s) (entry_path (snd s) d e) \<and>
       add_file (fst s) (snd s) (entry_path (snd s) d e) = Inl (x, w1) \<longrightarrow>
       walk_callback s d (e # es) =
         walk_callback
           (increment_failures (fst s),
            w1\<lparr>err := err w1 @ [cannot_copy_line (entry_path (snd s) d e) x]\<rparr>) d es \<and>
       copy_fails (increment_failures (fst s)) = copy_fails (fst s) + 1 \<and>
       copied_files (increment_failures (fst s)) = copied_files (fst s))"
proof -
  have "walk_callback s d (e # es) =
         walk_callback
           (increment_failures (fst s),
            w1\<lparr>err := err w1 @ [cannot_copy_line (entry_path (snd s) d e) x]\<rparr>) d es"
    if "is_mp3 (snd s) (entry_path (snd s) d e)"
      "add_file (fst s) (snd s) (entry_path (snd s) d e) = Inl (x, w1)"
    for s d e es x w1
    using that by (cases s) (simp add: Let_def)
  with run_total [OF assms] show ?thesis
    by (simp add: increment_failures_def)
qed

theorem run_never_raises_witness:
  "run 5 (ex_organizer, ex_world_init) = Some (ex_organizer_done, ex_world_done) \<and>
   copy_fails ex_organizer_done = 1 \<and> copied_files ex_organizer_done = 4 \<and>
   err ex_world_done = [cannot_copy_line ''/home/music/c.MP3'' HeaderNotFoundError]"
proof -
  have 1: "wf_world ex_world_init" by code_simp
  have 2: "depth_bound ex_organizer ex_world_init < 5" by code_simp
  from run_never_raises [OF 1 2] obtain self' w' where
    "run 5 (ex_organizer, ex_world_init) = Some (self', w')" by blast
  with ex_run have "self' = ex_organizer_done" "w' = ex_world_done" by simp_all
  with ex_run show ?thesis by (simp add: ex_organizer_done_def ex_world_done_def)
qed

text \<open>
  C1. On a well-formed world a run returns for every bound of the walk above the depth
  bound, and whenever a run returns, the two counters have grown together by the number of
  scanned entries that were regular files with the extension \<^verbatim>\<open>.mp3\<close>, in any case of the
  letters, when the callback came to them. An entry that is no such file (a directory, a
  file with another extension) leaves the counters and everything else as they are.
\<close>

theorem counters_count_scanned_mp3_files:
  "(wf_world w \<and> depth_bound self w < n \<longrightarrow> (\<exists>self' w'. run n (self, w) = Some (self', w'))) \<and>
   (\<forall>self' w'. run n (self, w) = Some (self', w') \<longrightarrow>
      copied_files self' + copy_fails self' =
      copied_files self + copy_fails self + scanned n (source_dir self) (self, w)) \<and>
   (\<forall>s d e. \<not> is_mp3 (snd s) (entry_path (snd s) d e) \<longrightarrow> walk_callback s d [e] = s) \<and>
   (\<forall>v p. is_mp3 v p \<longleftrightarrow>
      os_path_isfile v p \<and>
      snd (os_path_splitext p) \<in> {''.mp3'', ''.mP3'', ''.Mp3'', ''.MP3''})"
proof -
  have "copied_files self' + copy_fails self' =
      copied_files self + copy_fails self + scanned n (source_dir self) (self, w)"
    if "run n (self, w) = Some (self', w')" for self' w'
  proof -
    from that obtain w1 where "os_path_walk n (source_dir self) (self, w) = Some (self', w1)"
      by (auto simp: run_def split: option.splits)
    from walk_counts(1) [OF this] show ?thesis by simp
  qed
  then show ?thesis
    using run_total [of w self n] by (simp add: walk_callback_other is_mp3_extension)
qed

theorem counters_count_scanned_mp3_files_witness:
  "copied_files ex_organizer_done + copy_fails ex_organizer_done =
     scanned 5 ''music'' (ex_organizer, ex_world_init) \<and>
   scanned 5 ''music'' (ex_organizer, ex_world_init) = 5"
proof -
  have 1: "wf_world ex_world_init \<and> depth_bound ex_organizer ex_world_init < 5" by code_simp
  have 2: "scanned 5 ''music'' (ex_organizer, ex_world_init) = 5" by code_simp
  have 4: "source_dir ex_organizer = ''music''" "copied_files ex_organizer = 0"
    "copy_fails ex_organizer = 0" by (simp_all add: ex_organizer_def)
  from counters_count_scanned_mp3_files [of ex_world_init ex_organizer 5] ex_run
  have "copied_files ex_organizer_done + copy_fails ex_organizer_done =
      copied_files ex_organizer + copy_fails ex_organizer +
      scanned 5 (source_dir ex_organizer) (ex_organizer, ex_world_init)" by blast
  with 2 show ?thesis unfolding 4 by simp
qed

text \<open>
  C8. On a well-formed world a run returns for every bound of the walk above the depth
  bound, and it has handled every regular file with the extension \<^verbatim>\<open>.mp3\<close> that is listed in
  the source directory or in a directory any number of levels below it: one of the two
  messages about the file was written during the run.
\<close>

theorem run_visits_every_mp3_file:
  assumes "wf_world w" and "depth_bound self w < n"
    and "subdir_chain w (source_dir self) ns"
    and "os_listdir w (foldl os_path_join (source_dir self) ns) = Inr names"
    and "e \<in> set names"
    and "is_mp3 w (entry_path w (foldl os_path_join (source_dir self) ns) e)"
  shows "\<exists>self' w'. run n (self, w) = Some (self', w') \<and>
    reported (entry_path w (foldl os_path_join (source_dir self) ns) e) w w'"
proof -
  from run_total [OF assms(1,2)] obtain self' w' where r: "run n (self, w) = Some (self', w')"
    by blast
  then obtain w1 where wk: "os_path_walk n (source_dir self) (self, w) = Some (self', w1)"
    and w': "w' = w1\<lparr>out := out w1 @ summary self'\<rparr>"
    by (auto simp: run_def split: option.splits)
  from walk_reports [OF wk _ assms(3,4,5,6)]
  have "reported (entry_path w (foldl os_path_join (source_dir self) ns) e) w w1" by simp
  moreover have "grows w1 w'" unfolding w' by simp
  ultimately have "reported (entry_path w (foldl os_path_join (source_dir self) ns) e) w w'"
    by (rule reported_then_grows)
  with r show ?thesis by blast
qed

theorem run_visits_every_mp3_file_witness:
  "reported ''/home/music/sub/deep/e.Mp3'' ex_world_init ex_world_done"
proof -
  have 1: "wf_world ex_world_init" by code_simp
  have 2: "depth_bound ex_organizer ex_world_init < 5" by code_simp
  have 3: "subdir_chain ex_world_init (source_dir ex_organizer) [''sub'', ''deep'']" by code_simp
  have 4: "os_listdir ex_world_init (foldl os_path_join (source_dir ex_organizer) [''sub'', ''deep''])
    = Inr [''e.Mp3'']" by code_simp
  have 5: "''e.Mp3'' \<in> set [''e.Mp3'']" by simp
  have 6: "entry_path ex_world_init (foldl os_path_join (source_dir ex_organizer) [''sub'', ''deep''])
    ''e.Mp3'' = ''/home/music/sub/deep/e.Mp3''" by code_simp
  have 7: "is_mp3 ex_world_init (entry_path ex_world_init
    (foldl os_path_join (source_dir ex_organizer) [''sub'', ''deep'']) ''e.Mp3'')" by code_simp
  from run_visits_every_mp3_file [OF 1 2 3 4 5 7] ex_run show ?thesis unfolding 6 by auto
qed

section \<open>The summary\<close>

lemma show_nat_digits: "decimal_value (show_nat n) = n"
proof (induction n rule: show_nat.induct)
  case (1 n)
  show ?case
  proof (cases "n < 10")
    case True
    then show ?thesis by (subst show_nat.simps) (simp add: decimal_value_def)
  next
    case False
    with 1 have "decimal_value (show_nat (n div 10)) = n div 10" by simp
    with False show ?thesis
      by (subst show_nat.simps) (simp add: decimal_value_def)
  qed
qed

text \<open>
  C6. On a well-formed world a run returns for every bound of the walk above the depth
  bound. What a run that returns has written to standard output after the traversal: the
  line with the number of copied files, in decimal digits, and after it the line with the
  number of failures only when that number is not zero. So the summary has one line when
  nothing failed and two lines otherwise. Nothing else changes after the traversal.
\<close>

theorem summary_after_traversal:
  "(wf_world (snd s) \<and> depth_bound (fst s) (snd s) < n \<longrightarrow>
      (\<exists>self' w'. run n s = Some (self', w'))) \<and>
   (\<forall>self' w'. run n s = Some (self', w') \<longrightarrow>
      (\<exists>w1. os_path_walk n (source_dir (fst s)) s = Some (self', w1) \<and>
         fs w' = fs w1 \<and> err w' = err w1 \<and>
         out w' = out w1 @
           (if copy_fails self' = 0
            then [''Copied '' @ show_nat (copied_files self') @ '' files'' @ [CHR 0x0A]]
            else [''Copied '' @ show_nat (copied_files self') @ '' files'' @ [CHR 0x0A],
                  ''Failed to copy '' @ show_nat (copy_fails self') @ '' files !'' @
                  [CHR 0x0A]]) \<and>
         decimal_value (show_nat (copied_files self')) = copied_files self' \<and>
         decimal_value (show_nat (copy_fails self')) = copy_fails self'))"
proof -
  have "wf_world (snd s) \<and> depth_bound (fst s) (snd s) < n \<longrightarrow>
      (\<exists>self' w'. run n s = Some (self', w'))"
    using run_total [of "snd s" "fst s" n] by simp
  then show ?thesis
    by (auto simp: run_def summary_def show_nat_digits split: option.splits)
qed

theorem summary_after_traversal_witness:
  "out ex_world_done =
     out (snd (the (os_path_walk 5 ''music'' (ex_organizer, ex_world_init)))) @
     [''Copied 4 files'' @ [CHR 0x0A], ''Failed to copy 1 files !'' @ [CHR 0x0A]]"
proof -
  let ?s = "(ex_organizer, ex_world_init)"
  have 5: "source_dir (fst ?s) = ''music''" by (simp add: ex_organizer_def)
  from summary_after_traversal [of ?s 5] ex_run obtain w1 where
    a: "os_path_walk 5 (source_dir (fst ?s)) ?s = Some (ex_organizer_done, w1)"
    and b: "out ex_world_done = out w1 @
      (if copy_fails ex_organizer_done = 0
       then [''Copied '' @ show_nat (copied_files ex_organizer_done) @ '' files'' @ [CHR 0x0A]]
       else [''Copied '' @ show_nat (copied_files ex_organizer_done) @ '' files'' @ [CHR 0x0A],
             ''Failed to copy '' @ show_nat (copy_fails ex_organizer_done) @ '' files !'' @
             [CHR 0x0A]])"
    by blast
  have c: "copy_fails ex_organizer_done = 1" "copied_files ex_organizer_done = 4"
    by (simp_all add: ex_organizer_done_def)
  have 4: "show_nat 1 = ''1''" "show_nat 4 = ''4''" by code_simp+
  from a have "w1 = snd (the (os_path_walk 5 ''music'' ?s))" unfolding 5 by simp
  with b show ?thesis unfolding c 4 by simp
qed

section \<open>The command line\<close>




end
